theory Spec2Isabelle
  imports Main "HOL-Library.Word" "HOL-Library.AList" "HOL-Library.Sublist"
begin

section \<open>JavaScript strings\<close>

text \<open>
  A JavaScript string is a sequence of UTF-16 code units, and every string operation the
  program uses (\<open>length\<close>, \<open>substring\<close>, \<open>slice\<close>, \<open>split\<close>, \<open>startsWith\<close>, \<open>trim\<close>,
  regular expressions without the \<open>u\<close> flag) works on code units. A string is therefore a
  list of 16-bit words. ASCII literals are written \<open>js ''...''\<close>; code units outside ASCII
  are written as numerals.
\<close>

type_synonym jsstring = "16 word list"

abbreviation js :: "string \<Rightarrow> jsstring" where
  "js s \<equiv> map of_char s"

section \<open>Chat session store (content-script.js, class NimiMini)\<close>

text \<open>
  The two role strings the program ever passes, \<open>'user'\<close> and \<open>'assistant'\<close>.
\<close>

datatype role = User | Assistant

record chat_message =
  role :: role
  content :: jsstring
  timestamp :: jsstring

text \<open>The field \<open>id\<close> of a session object is called \<open>session_id\<close> here.\<close>

record chat_session =
  session_id :: jsstring
  title :: jsstring
  messages :: "chat_message list"
  createdAt :: jsstring
  updatedAt :: jsstring
  url :: jsstring

text \<open>
  The part of a \<open>NimiMini\<close> object the session operations touch: the pointer
  \<open>this.currentChatSession\<close> (\<open>None\<close> is \<open>null\<close>), the registry \<open>this.chatSessions\<close>
  (a JavaScript \<open>Map\<close>: an association list in insertion order, where \<open>set\<close> on a key
  already present replaces the value in place and a new key goes to the end, which is
  \<open>AList.update\<close>), and what \<open>chrome.storage.local\<close> holds under the keys
  \<open>chatSessions\<close> and \<open>currentChatSession\<close> (\<open>None\<close> before the first write).
\<close>

record nimi =
  currentChatSession :: "jsstring option"
  chatSessions :: "(jsstring \<times> chat_session) list"
  storage_local :: "(chat_session list \<times> jsstring option) option"

text \<open>
  What one call reads from outside the object: the text of \<open>Date.now()\<close>, the text of
  \<open>Math.random().toString(36).substr(2, 9)\<close>, \<open>window.location.href\<close>, the results of
  the evaluations of \<open>new Date().toISOString()\<close> (one field for each place a call can
  evaluate it: \<open>createdAt\<close> and \<open>updatedAt\<close> of a new session, the \<open>timestamp\<close> of a
  message, the refreshed \<open>updatedAt\<close>), and whether \<open>chrome.storage.local.set\<close> succeeds.
\<close>

record env =
  date_now :: jsstring
  random_suffix :: jsstring
  location_href :: jsstring
  now_createdAt :: jsstring
  now_updatedAt :: jsstring
  now_timestamp :: jsstring
  now_touched :: jsstring
  storage_set_ok :: bool

text \<open>
  \<open>!this.currentChatSession\<close>: the pointer is \<open>null\<close> or the empty string.
\<close>

definition falsy :: "jsstring option \<Rightarrow> bool" where
  "falsy p = (case p of None \<Rightarrow> True | Some i \<Rightarrow> i = [])"

text \<open>\<open>this.chatSessions.get(this.currentChatSession)\<close>; no session has the key \<open>null\<close>.\<close>

definition current_session :: "nimi \<Rightarrow> chat_session option" where
  "current_session s =
     (case currentChatSession s of None \<Rightarrow> None | Some k \<Rightarrow> map_of (chatSessions s) k)"

definition generateSessionId :: "env \<Rightarrow> jsstring" where
  "generateSessionId e = js ''chat_'' @ date_now e @ js ''_'' @ random_suffix e"

text \<open>
  \<open>saveChatSessions\<close>: the snapshot \<open>Array.from(this.chatSessions.values())\<close> and the
  pointer are written; a failing write is caught and logged, and the object is left as it is.
\<close>

definition saveChatSessions :: "env \<Rightarrow> nimi \<Rightarrow> nimi" where
  "saveChatSessions e s =
     (if storage_set_ok e
      then s\<lparr>storage_local := Some (map snd (chatSessions s), currentChatSession s)\<rparr>
      else s)"

text \<open>The placeholder title, the three code units of the source's literal.\<close>

definition new_chat_title :: jsstring where
  "new_chat_title = [0x65B0, 0x5BF9, 0x8BDD]"

definition initChatSession :: "env \<Rightarrow> nimi \<Rightarrow> nimi" where
  "initChatSession e s =
     (if falsy (currentChatSession s)
      then let sessionId = generateSessionId e
           in saveChatSessions e
                (s\<lparr>currentChatSession := Some sessionId,
                   chatSessions := AList.update sessionId
                     \<lparr>session_id = sessionId, title = new_chat_title, messages = [],
                      createdAt = now_createdAt e, updatedAt = now_updatedAt e,
                      url = location_href e\<rparr>
                     (chatSessions s)\<rparr>)
      else s)"

text \<open>
  \<open>session\<close> is the object stored in the registry under the pointer; the pushes and
  assignments to it are an update of the registry at that key.
\<close>

definition store_current :: "jsstring \<Rightarrow> chat_session \<Rightarrow> nimi \<Rightarrow> nimi" where
  "store_current k session s = s\<lparr>chatSessions := AList.update k session (chatSessions s)\<rparr>"

definition make_title :: "jsstring \<Rightarrow> jsstring" where
  "make_title c = (if length c > 50 then take 50 c @ js ''...'' else c)"

definition addMessage :: "env \<Rightarrow> role \<Rightarrow> jsstring \<Rightarrow> nimi \<Rightarrow> nimi" where
  "addMessage e r c s =
     (let s1 = (if falsy (currentChatSession s) then initChatSession e s else s)
      in case currentChatSession s1 of
           None \<Rightarrow> s1
         | Some k \<Rightarrow>
            (case map_of (chatSessions s1) k of
               None \<Rightarrow> s1
             | Some session \<Rightarrow>
                 let msgs = messages session @
                            [\<lparr>role = r, content = c, timestamp = now_timestamp e\<rparr>];
                     session1 = session\<lparr>messages := msgs, updatedAt := now_touched e\<rparr>;
                     session2 = (if r = User \<and> length msgs = 1
                                 then session1\<lparr>title := make_title c\<rparr> else session1)
                 in saveChatSessions e (store_current k session2 s1)))"

definition getChatContext :: "nimi \<Rightarrow> chat_message list" where
  "getChatContext s =
     (if falsy (currentChatSession s) then []
      else case current_session s of None \<Rightarrow> [] | Some session \<Rightarrow> messages session)"

definition maxMessages :: nat where
  "maxMessages = 20"

text \<open>\<open>slice(-maxMessages)\<close> on a longer array keeps its last \<open>maxMessages\<close> elements.\<close>

definition getAIContext :: "nimi \<Rightarrow> chat_message list" where
  "getAIContext s =
     (if falsy (currentChatSession s) then []
      else case current_session s of
             None \<Rightarrow> []
           | Some session \<Rightarrow>
               if length (messages session) \<le> maxMessages then messages session
               else drop (length (messages session) - maxMessages) (messages session))"

definition clearCurrentChat :: "env \<Rightarrow> nimi \<Rightarrow> nimi" where
  "clearCurrentChat e s =
     (if falsy (currentChatSession s) then s
      else case currentChatSession s of
             None \<Rightarrow> s
           | Some k \<Rightarrow>
              (case map_of (chatSessions s) k of
                 None \<Rightarrow> s
               | Some session \<Rightarrow>
                   saveChatSessions e
                     (store_current k
                        (session\<lparr>messages := [], updatedAt := now_touched e,
                                 title := new_chat_title\<rparr>) s)))"

text \<open>
  \<open>session.messages[session.messages.length - 1]\<close>: \<open>undefined\<close> on an empty array.
\<close>

definition lastMessage :: "chat_message list \<Rightarrow> chat_message option" where
  "lastMessage ms = (if ms = [] then None else Some (last ms))"

definition saveAIMessageToHistory :: "env \<Rightarrow> jsstring \<Rightarrow> nimi \<Rightarrow> nimi" where
  "saveAIMessageToHistory e c s =
     (let s1 = (if falsy (currentChatSession s) then initChatSession e s else s)
      in case currentChatSession s1 of
           None \<Rightarrow> s1
         | Some k \<Rightarrow>
            (case map_of (chatSessions s1) k of
               None \<Rightarrow> s1
             | Some session \<Rightarrow>
                 let msgs =
                       (case lastMessage (messages session) of
                          None \<Rightarrow> messages session @
                            [\<lparr>role = Assistant, content = c, timestamp = now_timestamp e\<rparr>]
                        | Some m \<Rightarrow>
                            if role m = Assistant
                            then butlast (messages session) @
                                 [m\<lparr>content := c, timestamp := now_timestamp e\<rparr>]
                            else messages session @
                                 [\<lparr>role = Assistant, content = c,
                                   timestamp = now_timestamp e\<rparr>])
                 in saveChatSessions e
                      (store_current k
                         (session\<lparr>messages := msgs, updatedAt := now_touched e\<rparr>) s1)))"

text \<open>\<open>switchChatSession\<close>: the pointer moves to an id the registry holds.\<close>

definition switchChatSession :: "env \<Rightarrow> jsstring \<Rightarrow> nimi \<Rightarrow> bool \<times> nimi" where
  "switchChatSession e sessionId s =
     (if map_of (chatSessions s) sessionId \<noteq> None
      then (True, saveChatSessions e (s\<lparr>currentChatSession := Some sessionId\<rparr>))
      else (False, s))"

text \<open>
  \<open>loadChatSessions\<close>, given whether \<open>chrome.storage.local.get\<close> succeeds: a stored
  array replaces the registry, each session under its own \<open>id\<close>; a stored pointer
  replaces the pointer when it is truthy.
\<close>

definition loadChatSessions :: "bool \<Rightarrow> nimi \<Rightarrow> nimi" where
  "loadChatSessions get_ok s =
     (if \<not> get_ok then s
      else case storage_local s of
             None \<Rightarrow> s
           | Some (sessions, pointer) \<Rightarrow>
               s\<lparr>chatSessions :=
                    fold (\<lambda>session. AList.update (session_id session) session) sessions [],
                  currentChatSession :=
                    (if falsy pointer then currentChatSession s else pointer)\<rparr>)"

text \<open>\<open>calls\<close> in order: one \<open>addMessage\<close> after the other, each with its own readings.\<close>

fun addMessages :: "(env \<times> role \<times> jsstring) list \<Rightarrow> nimi \<Rightarrow> nimi" where
  "addMessages [] s = s"
| "addMessages ((e, r, c) # calls) s = addMessages calls (addMessage e r c s)"

text \<open>The message one call appends.\<close>

definition message_of :: "env \<times> role \<times> jsstring \<Rightarrow> chat_message" where
  "message_of x = (case x of (e, r, c) \<Rightarrow>
     \<lparr>role = r, content = c, timestamp = now_timestamp e\<rparr>)"

subsection \<open>Predicates on store states\<close>

text \<open>
  The current session has no message yet: there is no current session (the next
  \<open>addMessage\<close> creates it), or the current session is in the registry with an empty
  \<open>messages\<close> array.
\<close>

definition fresh_session :: "nimi \<Rightarrow> bool" where
  "fresh_session s =
     (falsy (currentChatSession s) \<or>
      (case current_session s of None \<Rightarrow> False | Some session \<Rightarrow> messages session = []))"

text \<open>The pointer is set and names a session of the registry.\<close>

definition session_present :: "nimi \<Rightarrow> bool" where
  "session_present s = (\<not> falsy (currentChatSession s) \<and> current_session s \<noteq> None)"

text \<open>
  No id is the empty string: not the pointer, no key of the registry, no \<open>id\<close> of a
  session in the registry or in the stored copy, not the stored pointer.
\<close>

definition ids_nonempty :: "nimi \<Rightarrow> bool" where
  "ids_nonempty s =
     (currentChatSession s \<noteq> Some []
      \<and> list_all (\<lambda>(k, v). k \<noteq> [] \<and> session_id v \<noteq> []) (chatSessions s)
      \<and> (case storage_local s of
            None \<Rightarrow> True
          | Some (sessions, pointer) \<Rightarrow>
              list_all (\<lambda>v. session_id v \<noteq> []) sessions \<and> pointer \<noteq> Some []))"

text \<open>Some message with role assistant directly follows another one.\<close>

fun consecutive_assistants :: "chat_message list \<Rightarrow> bool" where
  "consecutive_assistants (a # b # rest) =
     ((role a = Assistant \<and> role b = Assistant) \<or> consecutive_assistants (b # rest))"
| "consecutive_assistants ms = False"

subsection \<open>Concrete states and readings\<close>

text \<open>The state the constructor leaves: no current session, an empty registry.\<close>

definition new_NimiMini :: nimi where
  "new_NimiMini = \<lparr>currentChatSession = None, chatSessions = [], storage_local = None\<rparr>"

definition env0 :: env where
  "env0 = \<lparr>date_now = js ''1700000000000'', random_suffix = js ''k3j9x0q2a'',
            location_href = js ''https://example.org/'',
            now_createdAt = js ''2024-01-01T00:00:00.000Z'',
            now_updatedAt = js ''2024-01-01T00:00:00.001Z'',
            now_timestamp = js ''2024-01-01T00:00:01.000Z'',
            now_touched = js ''2024-01-01T00:00:01.001Z'',
            storage_set_ok = True\<rparr>"

definition env1 :: env where
  "env1 = env0\<lparr>date_now := js ''1700000005000'', random_suffix := js ''zz81mmq0p'',
                now_timestamp := js ''2024-01-01T00:00:05.000Z'',
                now_touched := js ''2024-01-01T00:00:05.001Z''\<rparr>"

text \<open>A session with one user turn and its answer, and a second, empty session.\<close>

definition hello_session :: chat_session where
  "hello_session =
     \<lparr>session_id = js ''chat_1_a'', title = js ''Hello'',
      messages = [\<lparr>role = User, content = js ''Hello'', timestamp = js ''t1''\<rparr>,
                  \<lparr>role = Assistant, content = js ''Hi'', timestamp = js ''t2''\<rparr>],
      createdAt = js ''t0'', updatedAt = js ''t2'', url = js ''https://example.org/''\<rparr>"

definition other_session :: chat_session where
  "other_session =
     \<lparr>session_id = js ''chat_2_b'', title = new_chat_title, messages = [],
      createdAt = js ''t3'', updatedAt = js ''t3'', url = js ''https://example.org/''\<rparr>"

definition two_sessions :: nimi where
  "two_sessions =
     \<lparr>currentChatSession = Some (js ''chat_1_a''),
      chatSessions = [(js ''chat_1_a'', hello_session), (js ''chat_2_b'', other_session)],
      storage_local = None\<rparr>"

text \<open>The pointer names an id that the registry does not hold.\<close>

definition dangling :: nimi where
  "dangling = two_sessions\<lparr>currentChatSession := Some (js ''chat_9_z'')\<rparr>"

text \<open>Twenty-five calls of \<open>addMessage\<close>, the \<open>i\<close>-th with the one-unit content \<open>i\<close>.\<close>

definition calls25 :: "(env \<times> role \<times> jsstring) list" where
  "calls25 = map (\<lambda>i. (env1, if even i then User else Assistant, [of_nat i])) [0..<25]"

section \<open>Streaming chat client (content-script.js, callChatAPI)\<close>

subsection \<open>The values \<open>JSON.parse\<close> returns\<close>

text \<open>
  A parsed payload is a tree of JavaScript values; the properties of an object are an
  association list (a read takes the first entry of a key). The number type is left open:
  the program only tests a number for truthiness and appends its text.
\<close>

datatype 'n json =
    JNull
  | JBool bool
  | JNumber 'n
  | JString jsstring
  | JArray "'n json list"
  | JObject "(jsstring \<times> 'n json) list"

text \<open>
  What the JavaScript engine provides: \<open>JSON.parse\<close> (\<open>None\<close> when it throws a
  \<open>SyntaxError\<close>), whether a number is \<open>+0\<close> or \<open>-0\<close> (the only falsy numbers a JSON
  text can denote), and the text of a number.
\<close>

record 'n platform =
  JSON_parse :: "jsstring \<Rightarrow> 'n json option"
  number_zero :: "'n \<Rightarrow> bool"
  number_toString :: "'n \<Rightarrow> jsstring"

text \<open>Truthiness of a value, as \<open>&&\<close>, \<open>||\<close> and \<open>if\<close> test it.\<close>

fun truthy :: "'n platform \<Rightarrow> 'n json \<Rightarrow> bool" where
  "truthy P JNull = False"
| "truthy P (JBool b) = b"
| "truthy P (JNumber n) = (\<not> number_zero P n)"
| "truthy P (JString s) = (s \<noteq> [])"
| "truthy P (JArray xs) = True"
| "truthy P (JObject kvs) = True"

text \<open>
  \<open>v.choices\<close>, \<open>v.delta\<close>, \<open>v.content\<close> on a value \<open>v\<close> that is not \<open>null\<close>: an own
  property of an object, and \<open>undefined\<close> (\<open>None\<close>) otherwise, since no prototype has a
  property of one of these three names.
\<close>

fun get_prop :: "jsstring \<Rightarrow> 'n json \<Rightarrow> 'n json option" where
  "get_prop name (JObject kvs) = map_of kvs name"
| "get_prop name v = None"

text \<open>
  \<open>v[0]\<close> on a truthy value: the first element of an array, the first code unit of a
  string, the property \<open>"0"\<close> of an object, \<open>undefined\<close> on a number or a boolean.
\<close>

fun index0 :: "'n json \<Rightarrow> 'n json option" where
  "index0 (JArray xs) = (case xs of [] \<Rightarrow> None | x # _ \<Rightarrow> Some x)"
| "index0 (JString s) = (case s of [] \<Rightarrow> None | c # _ \<Rightarrow> Some (JString [c]))"
| "index0 (JObject kvs) = map_of kvs (js ''0'')"
| "index0 v = None"

fun join :: "jsstring \<Rightarrow> jsstring list \<Rightarrow> jsstring" where
  "join sep [] = []"
| "join sep [x] = x"
| "join sep (x # y # ys) = x @ sep @ join sep (y # ys)"

text \<open>
  The text \<open>fullResponse += content\<close> appends for a value \<open>content\<close>: a string itself,
  a number and a boolean their text, an array its elements' texts joined by commas
  (\<open>null\<close> elements as the empty text), an object \<open>[object Object]\<close>; on an object with an
  own property \<open>toString\<close> (a parsed value, so not a function) the conversion throws a
  \<open>TypeError\<close>, which is \<open>None\<close>.
\<close>

fun toString :: "'n platform \<Rightarrow> 'n json \<Rightarrow> jsstring option" where
  "toString P (JString s) = Some s"
| "toString P (JNumber n) = Some (number_toString P n)"
| "toString P (JBool b) = Some (if b then js ''true'' else js ''false'')"
| "toString P JNull = Some (js ''null'')"
| "toString P (JObject kvs) =
     (if map_of kvs (js ''toString'') = None then Some (js ''[object Object]'') else None)"
| "toString P (JArray xs) =
     map_option (join (js '',''))
       (those (map (\<lambda>x. if x = JNull then Some [] else toString P x) xs))"

subsection \<open>Lines of a chunk\<close>

text \<open>
  \<open>s.split(sep)\<close>: the pieces between the occurrences of \<open>sep\<close>, found from the left
  without overlap; with the empty separator, the code units one by one.
\<close>

function split :: "jsstring \<Rightarrow> jsstring \<Rightarrow> jsstring list" where
  "split sep [] = (if sep = [] then [] else [[]])"
| "split sep (c # cs) =
     (if sep = [] then map (\<lambda>x. [x]) (c # cs)
      else if prefix sep (c # cs) then [] # split sep (drop (length sep) (c # cs))
      else (case split sep cs of [] \<Rightarrow> [[c]] | l # ls \<Rightarrow> (c # l) # ls))"
  by pat_completeness auto
termination
  by (relation "measure (\<lambda>(sep, s). length s)") auto

text \<open>
  The code units \<open>trim\<close> removes and \<open>\s\<close> matches: the white space and line terminator
  code points of ECMAScript.
\<close>

definition whitespace :: "16 word \<Rightarrow> bool" where
  "whitespace c =
     (c = 0x09 \<or> c = 0x0A \<or> c = 0x0B \<or> c = 0x0C \<or> c = 0x0D \<or> c = 0x20 \<or> c = 0xA0
      \<or> c = 0x1680 \<or> (0x2000 \<le> c \<and> c \<le> 0x200A) \<or> c = 0x2028 \<or> c = 0x2029
      \<or> c = 0x202F \<or> c = 0x205F \<or> c = 0x3000 \<or> c = 0xFEFF)"

text \<open>\<open>chunk.split('\n').filter(line => line.trim() !== '')\<close>\<close>

definition lines_of :: "jsstring \<Rightarrow> jsstring list" where
  "lines_of chunk = filter (\<lambda>line. \<not> list_all whitespace line) (split [0x0A] chunk)"

subsection \<open>The read loop\<close>

text \<open>
  The two callbacks are arguments of \<open>callChatAPI\<close>; each is tested before it is called,
  so an argument may be missing. The model records whether each is given and the calls
  made to it, in order, with their arguments. A callback is taken to return normally.
\<close>

record callbacks =
  onStreamChunk :: bool
  onStreamComplete :: bool

datatype 'n callback_call =
    StreamChunk "'n json" jsstring
  | StreamComplete jsstring

record 'n stream_state =
  fullResponse :: jsstring
  trace :: "'n callback_call list"

text \<open>
  The guard \<open>parsed.choices && parsed.choices[0] && parsed.choices[0].delta\<close> and
  \<open>parsed.choices[0].delta.content || ''\<close>: the content when the guard holds and the
  content is truthy. On \<open>null\<close> the first property read throws a \<open>TypeError\<close>, which the
  \<open>catch\<close> around the body swallows as it does a parse error.
\<close>

definition delta_content :: "'n platform \<Rightarrow> 'n json \<Rightarrow> 'n json option" where
  "delta_content P parsed =
     (case parsed of
        JNull \<Rightarrow> None
      | _ \<Rightarrow>
        (case get_prop (js ''choices'') parsed of
           None \<Rightarrow> None
         | Some choices \<Rightarrow>
             if \<not> truthy P choices then None
             else (case index0 choices of
                     None \<Rightarrow> None
                   | Some choice \<Rightarrow>
                       if \<not> truthy P choice then None
                       else (case get_prop (js ''delta'') choice of
                               None \<Rightarrow> None
                             | Some delta \<Rightarrow>
                                 if \<not> truthy P delta then None
                                 else (case get_prop (js ''content'') delta of
                                         None \<Rightarrow> None
                                       | Some c \<Rightarrow> if truthy P c then Some c else None)))))"

text \<open>
  The \<open>try\<close> block for one payload that is not the sentinel. Every exception in it
  (\<open>SyntaxError\<close> of \<open>JSON.parse\<close>, \<open>TypeError\<close> of a property read or of the
  conversion in \<open>+=\<close>) is caught and logged, and leaves the state as it is.
\<close>

definition handle_data :: "'n platform \<Rightarrow> callbacks \<Rightarrow> jsstring \<Rightarrow> 'n stream_state \<Rightarrow> 'n stream_state" where
  "handle_data P cb data st =
     (case JSON_parse P data of
        None \<Rightarrow> st
      | Some parsed \<Rightarrow>
         (case delta_content P parsed of
            None \<Rightarrow> st
          | Some c \<Rightarrow>
             (case toString P c of
                None \<Rightarrow> st
              | Some fragment \<Rightarrow>
                  let full = fullResponse st @ fragment
                  in st\<lparr>fullResponse := full,
                        trace := trace st @
                          (if onStreamChunk cb then [StreamChunk c full] else [])\<rparr>)))"

text \<open>
  The \<open>for\<close> loop over the lines of one chunk. The result is \<open>True\<close> when the loop left
  through the \<open>return\<close> at the sentinel, \<open>False\<close> when it ran to the end of the lines.
\<close>

fun process_lines :: "'n platform \<Rightarrow> callbacks \<Rightarrow> jsstring list \<Rightarrow> 'n stream_state \<Rightarrow> bool \<times> 'n stream_state" where
  "process_lines P cb [] st = (False, st)"
| "process_lines P cb (line # rest) st =
     (if prefix (js ''data: '') line
      then let data = drop 6 line
           in if data = js ''[DONE]''
              then (True, st\<lparr>trace := trace st @
                      (if onStreamComplete cb then [StreamComplete (fullResponse st)] else [])\<rparr>)
              else process_lines P cb rest (handle_data P cb data st)
      else process_lines P cb rest st)"

text \<open>An exception: an \<open>Error\<close> with its message, or a \<open>TypeError\<close> of the engine.\<close>

datatype error = Error jsstring | TypeError

text \<open>
  The \<open>while (true)\<close> loop. The reads of the body are the decoded chunks in order,
  followed by \<open>done\<close> (\<open>None\<close>) or by a read that throws (\<open>Some\<close> of the exception).
  The result is the calls made to the callbacks and what \<open>callChatAPI\<close> returns or throws.
\<close>

fun read_loop :: "'n platform \<Rightarrow> callbacks \<Rightarrow> jsstring list \<Rightarrow> error option \<Rightarrow> 'n stream_state \<Rightarrow> 'n callback_call list \<times> (error + jsstring)" where
  "read_loop P cb [] failure st =
     (case failure of None \<Rightarrow> (trace st, Inr (fullResponse st))
                    | Some e \<Rightarrow> (trace st, Inl e))"
| "read_loop P cb (chunk # rest) failure st =
     (case process_lines P cb (lines_of chunk) st of
        (True, st') \<Rightarrow> (trace st', Inr (fullResponse st'))
      | (False, st') \<Rightarrow> read_loop P cb rest failure st')"

subsection \<open>The request and the response\<close>

record settings =
  modelUrl :: jsstring
  apiKey :: jsstring
  modelName :: jsstring

text \<open>
  The request \<open>fetch\<close> is called with; \<open>temperature\<close>, \<open>max_tokens\<close> and \<open>stream\<close> are
  the same constants in every request.
\<close>

record request =
  request_url :: jsstring
  request_authorization :: jsstring
  request_model :: jsstring
  request_messages :: "(role \<times> jsstring) list"

record stream_body =
  chunks :: "jsstring list"
  failure :: "error option"

text \<open>
  The response object as the program reads it: \<open>ok\<close>, \<open>status\<close>, the result of
  \<open>text()\<close> (which may throw) and \<open>body\<close> (which may be \<open>null\<close>).
\<close>

record response =
  response_ok :: bool
  response_status :: nat
  response_text :: "error + jsstring"
  response_body :: "stream_body option"

text \<open>The decimal text of a status code, as the template literal inserts it.\<close>

fun nat_toString :: "nat \<Rightarrow> jsstring" where
  "nat_toString n =
     (if n < 10 then [48 + of_nat n]
      else nat_toString (n div 10) @ [48 + of_nat (n mod 10)])"

declare nat_toString.simps [simp del]

text \<open>
  The message of the error thrown on a response that is not \<open>ok\<close>; the four numerals are
  the code units of the source's literal between \<open>API\<close> and the blank.
\<close>

definition request_failed :: "nat \<Rightarrow> jsstring \<Rightarrow> jsstring" where
  "request_failed st errorText =
     js ''API'' @ [0x8BF7, 0x6C42, 0x5931, 0x8D25] @ js '' ('' @ nat_toString st @ js ''): ''
       @ errorText"

definition make_request :: "settings \<Rightarrow> nimi \<Rightarrow> request" where
  "make_request cfg s =
     \<lparr>request_url = modelUrl cfg,
      request_authorization = js ''Bearer '' @ apiKey cfg,
      request_model = (if modelName cfg = [] then js ''gpt-3.5-turbo'' else modelName cfg),
      request_messages = map (\<lambda>msg. (role msg, content msg)) (getAIContext s)\<rparr>"

text \<open>
  \<open>callChatAPI\<close>. \<open>fetch\<close> gives a response or throws; the exception handlers of the
  function log and rethrow, and \<open>releaseLock\<close> has no effect the program observes.
\<close>

definition callChatAPI :: "'n platform \<Rightarrow> (request \<Rightarrow> error + response) \<Rightarrow> settings \<Rightarrow> nimi \<Rightarrow> callbacks \<Rightarrow> 'n callback_call list \<times> (error + jsstring)" where
  "callChatAPI P fetch cfg s cb =
     (case fetch (make_request cfg s) of
        Inl e \<Rightarrow> ([], Inl e)
      | Inr resp \<Rightarrow>
          if \<not> response_ok resp
          then (case response_text resp of
                  Inl e \<Rightarrow> ([], Inl e)
                | Inr errorText \<Rightarrow>
                    ([], Inl (Error (request_failed (response_status resp) errorText))))
          else (case response_body resp of
                  None \<Rightarrow> ([], Inl TypeError)
                | Some b \<Rightarrow>
                    read_loop P cb (chunks b) (failure b)
                      \<lparr>fullResponse = [], trace = []\<rparr>))"

subsection \<open>What a run passes to the callbacks\<close>

text \<open>The text of one fragment passed to \<open>onStreamChunk\<close>.\<close>

definition fragment_text :: "'n platform \<Rightarrow> 'n json \<Rightarrow> jsstring" where
  "fragment_text P c = (case toString P c of None \<Rightarrow> [] | Some t \<Rightarrow> t)"

text \<open>The fragments passed to \<open>onStreamChunk\<close>, concatenated in the order of the calls.\<close>

fun fragments :: "'n platform \<Rightarrow> 'n callback_call list \<Rightarrow> jsstring" where
  "fragments P [] = []"
| "fragments P (StreamChunk c full # tr) = fragment_text P c @ fragments P tr"
| "fragments P (StreamComplete full # tr) = fragments P tr"

text \<open>The arguments of the calls of \<open>onStreamComplete\<close>, in order.\<close>

fun completions :: "'n callback_call list \<Rightarrow> jsstring list" where
  "completions [] = []"
| "completions (StreamChunk c full # tr) = completions tr"
| "completions (StreamComplete full # tr) = full # completions tr"

text \<open>A line is a frame whose payload is the sentinel.\<close>

definition done_frame :: "jsstring \<Rightarrow> bool" where
  "done_frame line = (prefix (js ''data: '') line \<and> drop 6 line = js ''[DONE]'')"

text \<open>Some line of some chunk is a sentinel frame.\<close>

definition has_done :: "jsstring list \<Rightarrow> bool" where
  "has_done cs = list_ex (\<lambda>chunk. list_ex done_frame (lines_of chunk)) cs"

text \<open>
  The text a line that is not the sentinel adds to the accumulator: the fragment of a data
  frame whose payload parses and carries a truthy content, nothing otherwise.
\<close>

definition frame_text :: "'n platform \<Rightarrow> jsstring \<Rightarrow> jsstring" where
  "frame_text P line =
     (if prefix (js ''data: '') line
      then (case JSON_parse P (drop 6 line) of
              None \<Rightarrow> []
            | Some parsed \<Rightarrow>
               (case delta_content P parsed of
                  None \<Rightarrow> []
                | Some c \<Rightarrow> fragment_text P c))
      else [])"

section \<open>Markdown renderer (content-script.js, renderMarkdown)\<close>

subsection \<open>Replacing the matches of a regular expression\<close>

text \<open>
  The line terminators of ECMAScript: the code units \<open>.\<close> does not match, and after or
  before which \<open>^\<close> and \<open>$\<close> match under the \<open>m\<close> flag.
\<close>

definition line_terminator :: "16 word \<Rightarrow> bool" where
  "line_terminator c = (c = 0x0A \<or> c = 0x0D \<or> c = 0x2028 \<or> c = 0x2029)"

text \<open>
  \<open>s.replace(/c/g, r)\<close> for a single code unit \<open>c\<close> and a replacement \<open>r\<close> without
  \<open>$\<close>: the three escaping passes.
\<close>

definition replace_char :: "16 word \<Rightarrow> jsstring \<Rightarrow> jsstring \<Rightarrow> jsstring" where
  "replace_char c r s = concat (map (\<lambda>x. if x = c then r else [x]) s)"

text \<open>
  The replacement text for one match: \<open>$1\<close> to \<open>$9\<close> stand for the captures of the
  groups the expression has; every other code unit stands for itself. (The replacement
  strings of the program contain no other \<open>$\<close> pattern.)
\<close>

fun expand :: "jsstring list \<Rightarrow> jsstring \<Rightarrow> jsstring" where
  "expand caps (c # d # t) =
     (if c = 0x24 \<and> 0x31 \<le> d \<and> d \<le> 0x39 \<and> unat d - 0x31 < length caps
      then caps ! (unat d - 0x31) @ expand caps t
      else c # expand caps (d # t))"
| "expand caps t = t"

text \<open>
  A regular expression, as what it matches at the start of the rest of the input: given
  whether that position starts a line (it is the start of the input or follows a line
  terminator), the captures and the length of the match the engine finds there, or
  \<open>None\<close> when the match fails at that position.
\<close>

type_synonym matcher = "bool \<Rightarrow> jsstring \<Rightarrow> (jsstring list \<times> nat) option"

text \<open>
  \<open>s.replace(re, template)\<close> for an expression with the \<open>g\<close> flag: the engine tries the
  positions from left to right; at a match the expanded template is put out and the
  search goes on behind the match (one code unit further after an empty match); a code
  unit at which no match starts is copied.
\<close>

function replace_all :: "matcher \<Rightarrow> jsstring \<Rightarrow> bool \<Rightarrow> jsstring \<Rightarrow> jsstring" where
  "replace_all m tmpl bol [] =
     (case m bol [] of None \<Rightarrow> [] | Some (caps, n) \<Rightarrow> expand caps tmpl)"
| "replace_all m tmpl bol (c # cs) =
     (case m bol (c # cs) of
        None \<Rightarrow> c # replace_all m tmpl (line_terminator c) cs
      | Some (caps, n) \<Rightarrow>
          if n = 0 then expand caps tmpl @ c # replace_all m tmpl (line_terminator c) cs
          else expand caps tmpl @
               replace_all m tmpl (line_terminator ((c # cs) ! (min n (length (c # cs)) - 1)))
                 (drop n (c # cs)))"
  by pat_completeness auto
termination
  by (relation "measure (\<lambda>(m, tmpl, bol, s). length s)") auto

subsection \<open>The regular expressions of the renderer\<close>

text \<open>
  \<open>/^#### (.*$)/gim\<close> and the like, for the marker \<open>#### \<close>: at the start of a line,
  the marker, then the rest of the line up to the next line terminator or the end, which
  is the capture. The \<open>i\<close> flag changes nothing in an expression without letters.
\<close>

definition match_heading :: "jsstring \<Rightarrow> matcher" where
  "match_heading marker bol s =
     (if bol \<and> prefix marker s
      then let line = takeWhile (\<lambda>c. \<not> line_terminator c) (drop (length marker) s)
           in Some ([line], length marker + length line)
      else None)"

text \<open>
  The lazy \<open>(.*?)\<close> followed by the delimiter \<open>d\<close>: the shortest run of code units that
  are no line terminators after which \<open>d\<close> stands.
\<close>

fun find_close :: "jsstring \<Rightarrow> jsstring \<Rightarrow> jsstring option" where
  "find_close d [] = None"
| "find_close d (c # cs) =
     (if prefix d (c # cs) then Some []
      else if line_terminator c then None
      else map_option ((#) c) (find_close d cs))"

text \<open>\<open>/\*\*(.*?)\*\*/g\<close> with \<open>d\<close> two asterisks, \<open>/\*(.*?)\*/g\<close> with \<open>d\<close> one.\<close>

definition match_delimited :: "jsstring \<Rightarrow> matcher" where
  "match_delimited d bol s =
     (if prefix d s
      then (case find_close d (drop (length d) s) of
              None \<Rightarrow> None
            | Some cap \<Rightarrow> Some ([cap], length d + length cap + length d))
      else None)"

text \<open>
  The expression for inline code, a backtick, \<open>([^`]+)\<close> and a backtick: the greedy class
  takes every code unit up to the next backtick, line terminators too; it must take at
  least one, and the backtick must be there.
\<close>

definition match_code :: matcher where
  "match_code bol s =
     (case s of
        [] \<Rightarrow> None
      | c # t \<Rightarrow>
          if c = 0x60
          then let cap = takeWhile (\<lambda>x. x \<noteq> 0x60) t
               in if cap \<noteq> [] \<and> length cap < length t then Some ([cap], length cap + 2)
                  else None
          else None)"

text \<open>
  \<open>/^\s*[-*+] (.*)$/gim\<close>: at the start of a line, the longest run of white space (it
  may cross line ends; a shorter run would leave white space where the marker has to be),
  one of the three markers, a blank, and the rest of the line, which is the capture.
\<close>

definition match_list :: matcher where
  "match_list bol s =
     (if bol
      then let ws = takeWhile whitespace s
           in (case drop (length ws) s of
                 m # sp # t \<Rightarrow>
                   if (m = 0x2D \<or> m = 0x2A \<or> m = 0x2B) \<and> sp = 0x20
                   then let item = takeWhile (\<lambda>c. \<not> line_terminator c) t
                        in Some ([item], length ws + 2 + length item)
                   else None
               | _ \<Rightarrow> None)
      else None)"

text \<open>
  \<open>/\[([^\]]+)\]\(([^)]+)\)/g\<close>: an opening bracket, the code units up to the next
  closing bracket (at least one), that bracket and an opening parenthesis, the code units
  up to the next closing parenthesis (at least one), and that parenthesis.
\<close>

definition match_link :: matcher where
  "match_link bol s =
     (case s of
        [] \<Rightarrow> None
      | c # t \<Rightarrow>
          if c = 0x5B
          then let label = takeWhile (\<lambda>x. x \<noteq> 0x5D) t;
                   after = drop (length label) t
               in if label \<noteq> [] \<and> prefix [0x5D, 0x28] after
                  then let href = takeWhile (\<lambda>x. x \<noteq> 0x29) (drop 2 after)
                       in if href \<noteq> [] \<and> length href < length (drop 2 after)
                          then Some ([label, href], length label + length href + 4)
                          else None
                  else None
          else None)"

subsection \<open>The replacement strings\<close>

text \<open>
  The nine replacement strings, as the source has them; the list item's marker, the one
  code unit outside ASCII, is the numeral \<open>0x25B6\<close>.
\<close>

definition h4_template :: jsstring where
  \<open>h4_template =
     js ''<h4 style="font-size: 14px; margin: 12px 0 6px 0; color: ''
     @ js ''#2d9ab7; font-weight: 600; font-style: italic; border-left: 3px ''
     @ js ''solid #49bccf; padding-left: 8px;">$1</h4>''\<close>

definition h3_template :: jsstring where
  \<open>h3_template =
     js ''<h3 style="font-size: 16px; margin: 16px 0 8px 0; color: ''
     @ js ''#2d9ab7; font-weight: 700; border-bottom: 2px solid #e8f8fa; ''
     @ js ''padding-bottom: 4px;">$1</h3>''\<close>

definition h2_template :: jsstring where
  \<open>h2_template =
     js ''<h2 style="font-size: 18px; margin: 20px 0 12px 0; color: ''
     @ js ''#2d9ab7; font-weight: 700; background: linear-gradient(to ''
     @ js ''right, #f0f8fa, transparent); padding: 8px 12px; border-radius: ''
     @ js ''4px;">$1</h2>''\<close>

definition h1_template :: jsstring where
  \<open>h1_template =
     js ''<h1 style="font-size: 20px; margin: 24px 0 16px 0; color: ''
     @ js ''#2d9ab7; font-weight: 700; font-style: italic; text-align: ''
     @ js ''center; padding: 12px; border-bottom: 3px solid ''
     @ js ''#49bccf;">$1</h1>''\<close>

definition strong_template :: jsstring where
  \<open>strong_template =
     js ''<strong style="font-weight: 600; color: #2d9ab7;">$1</strong>''\<close>

definition em_template :: jsstring where
  \<open>em_template =
     js ''<em style="font-style: italic; color: #3aa8c8;">$1</em>''\<close>

definition code_template :: jsstring where
  \<open>code_template =
     js ''<code style="background: linear-gradient(135deg, #f0f8fa 0%, ''
     @ js ''#e8f8fa 100%); padding: 3px 8px; border-radius: 4px; ''
     @ js ''font-family: Monaco, monospace; font-size: 13px; color: ''
     @ js ''#2d9ab7; border: 1px solid #49bccf;">$1</code>''\<close>

definition li_template :: jsstring where
  \<open>li_template =
     js ''<li style="margin: 8px 0; padding-left: 8px; color: #333; ''
     @ js ''position: relative;"><span style="position: absolute; left: ''
     @ js ''-12px; color: #49bccf;">''
     @ [0x25B6]
     @ js ''</span>$1</li>''\<close>

definition a_template :: jsstring where
  \<open>a_template =
     js ''<a href="$2" target="_blank" style="color: #49bccf; ''
     @ js ''text-decoration: none; border-bottom: 1px solid #49bccf; ''
     @ js ''padding: 0 2px; transition: all 0.2s;">$1</a>''\<close>

text \<open>The two halves of the template literal around \<open>${paragraph}\<close>.\<close>

definition p_open :: jsstring where
  \<open>p_open = js ''<p style="margin: 12px 0; line-height: 1.8; color: #333;">''\<close>

definition p_close :: jsstring where
  "p_close = js ''</p>''"

subsection \<open>The renderer\<close>

text \<open>
  The function passed to \<open>map\<close>: a block that is not blank and holds no \<open><\<close> is wrapped
  in a paragraph element.
\<close>

definition wrap_paragraph :: "jsstring \<Rightarrow> jsstring" where
  "wrap_paragraph paragraph =
     (if \<not> list_all whitespace paragraph \<and> 0x3C \<notin> set paragraph
      then p_open @ paragraph @ p_close
      else paragraph)"

text \<open>The first three calls of \<open>replace\<close>, in the source's order: \<open>&\<close>, \<open><\<close>, \<open>>\<close>.\<close>

definition escape_html :: "jsstring \<Rightarrow> jsstring" where
  "escape_html s =
     replace_char 0x3E (js ''&gt;'') (replace_char 0x3C (js ''&lt;'')
       (replace_char 0x26 (js ''&amp;'') s))"

text \<open>
  What escaping makes of one code unit: the entity of \<open>&\<close>, of \<open><\<close> and of \<open>>\<close>,
  and every other code unit itself. The three passes are compared with it below.
\<close>

definition escaped_unit :: "16 word \<Rightarrow> jsstring" where
  "escaped_unit c =
     (if c = 0x26 then js ''&amp;''
      else if c = 0x3C then js ''&lt;''
      else if c = 0x3E then js ''&gt;''
      else [c])"

text \<open>
  The nine calls of \<open>replace\<close> that follow, the innermost first: headings of level 4, 3,
  2, 1, bold, italic, inline code, list items, links. Each starts at the start of its
  input.
\<close>

definition markdown_replaces :: "jsstring \<Rightarrow> jsstring" where
  "markdown_replaces s =
     replace_all match_link a_template True
      (replace_all match_list li_template True
       (replace_all match_code code_template True
        (replace_all (match_delimited (js ''*'')) em_template True
         (replace_all (match_delimited (js ''**'')) strong_template True
          (replace_all (match_heading (js ''# '')) h1_template True
           (replace_all (match_heading (js ''## '')) h2_template True
            (replace_all (match_heading (js ''### '')) h3_template True
             (replace_all (match_heading (js ''#### '')) h4_template True s))))))))"

definition renderMarkdown :: "jsstring \<Rightarrow> jsstring" where
  "renderMarkdown markdownText =
     (if markdownText = [] then []
      else join [0x0A] (map wrap_paragraph
             (split [0x0A, 0x0A] (markdown_replaces (escape_html markdownText)))))"

subsection \<open>Markup that the renderer's own strings can open\<close>

text \<open>
  The code units that stand in the first or second place behind a \<open><\<close> of the
  replacement strings.
\<close>

definition tag_char :: "16 word \<Rightarrow> bool" where
  "tag_char c = (c \<in> set (js ''h/eclapst''))"

text \<open>
  What follows a \<open><\<close> in the replacement strings: \<open>h\<close>, \<open>/\<close>, \<open>e\<close>, \<open>c\<close>, \<open>l\<close>, \<open>a\<close>,
  \<open>p\<close>, or \<open>s\<close> with \<open>t\<close> or \<open>p\<close> behind it (\<open>strong\<close>, \<open>span\<close>); never \<open>sc\<close>.
\<close>

fun tag_head :: "jsstring \<Rightarrow> bool" where
  "tag_head [] = False"
| "tag_head (a # t) =
     (a \<in> set (js ''h/eclap'') \<or>
      (a = 0x73 \<and> (case t of [] \<Rightarrow> False | b # u \<Rightarrow> b = 0x74 \<or> b = 0x70)))"

text \<open>Every \<open><\<close> of the string is followed by such a head.\<close>

fun tag_safe :: "jsstring \<Rightarrow> bool" where
  "tag_safe [] = True"
| "tag_safe (c # t) = ((if c = 0x3C then tag_head t else True) \<and> tag_safe t)"

text \<open>
  A matcher whose matches are not empty, lie in the input, start at a code unit that is
  no \<open>tag_char\<close>, and whose captures are pieces of the input that end where the input
  ends or where a code unit that is no \<open>tag_char\<close> follows.
\<close>

definition clean_matcher :: "matcher \<Rightarrow> bool" where
  "clean_matcher m =
     (\<forall>bol s caps n. m bol s = Some (caps, n) \<longrightarrow>
        0 < n \<and> n \<le> length s \<and> \<not> tag_char (hd s) \<and>
        (\<forall>cap \<in> set caps. \<exists>u v. s = u @ cap @ v \<and> (v = [] \<or> \<not> tag_char (hd v))))"

text \<open>
  The code units at which the matches of the nine expressions and their captures begin
  and end: white space, line terminators and the punctuation of the Markdown syntax.
\<close>

definition delimiter :: "16 word \<Rightarrow> bool" where
  "delimiter c = (whitespace c \<or> line_terminator c \<or> c \<in> set (js ''#*`-+[]()''))"

text \<open>A text without such code units.\<close>

definition plain :: "jsstring \<Rightarrow> bool" where
  "plain w = list_all (\<lambda>c. \<not> delimiter c) w"

text \<open>
  The replacement string \<open>tmpl\<close> of an expression with \<open>m\<close> groups inserts the capture
  of group \<open>i + 1\<close>.
\<close>

fun group_used :: "nat \<Rightarrow> nat \<Rightarrow> jsstring \<Rightarrow> bool" where
  "group_used i m (c # d # t) =
     (if c = 0x24 \<and> 0x31 \<le> d \<and> d \<le> 0x39 \<and> unat d - 0x31 < m
      then unat d - 0x31 = i \<or> group_used i m t
      else group_used i m (d # t))"
| "group_used i m t = False"

text \<open>
  A matcher with one group whose matches are delimiters, the capture, and delimiters
  again, where the match ends behind a delimiter, at the end of the input or before a
  line terminator.
\<close>

definition one_group :: "matcher \<Rightarrow> bool" where
  "one_group m =
     (\<forall>bol s caps n. m bol s = Some (caps, n) \<longrightarrow>
        (\<exists>d0 cap d1 rest. s = d0 @ cap @ d1 @ rest \<and> caps = [cap]
           \<and> n = length (d0 @ cap @ d1) \<and> d0 \<noteq> []
           \<and> list_all delimiter d0 \<and> list_all delimiter d1
           \<and> (d1 \<noteq> [] \<or> rest = [] \<or> line_terminator (hd rest))))"

text \<open>
  Replacing a match of \<open>m\<close> by the expansion of \<open>tmpl\<close> keeps every occurrence of the
  text \<open>w\<close>, whatever stands before the match.
\<close>

definition inert :: "matcher \<Rightarrow> jsstring \<Rightarrow> jsstring \<Rightarrow> bool" where
  "inert m tmpl w =
     (\<forall>bol s caps n x. m bol s = Some (caps, n) \<longrightarrow>
        0 < n \<and> n \<le> length s \<and>
        (sublist w (x @ s) \<longrightarrow> sublist w (x @ expand caps tmpl @ drop n s)))"

subsection \<open>Concrete streams\<close>

text \<open>
  The two payloads of the scenarios of section 8 of the specification, and the values
  \<open>JSON.parse\<close> returns for them.
\<close>

definition hi_payload :: jsstring where
  \<open>hi_payload = js ''{"choices":[{"delta":{"content":"Hi"}}]}''\<close>

definition there_payload :: jsstring where
  \<open>there_payload = js ''{"choices":[{"delta":{"content":" there"}}]}''\<close>

definition delta_value :: "jsstring \<Rightarrow> int json" where
  "delta_value c =
     JObject [(js ''choices'',
       JArray [JObject [(js ''delta'', JObject [(js ''content'', JString c)])]])]"

text \<open>
  An engine over integer numbers whose \<open>JSON.parse\<close> knows the two payloads and throws on
  every other text; \<open>{not json\<close> is among those.
\<close>

definition scenario_platform :: "int platform" where
  "scenario_platform =
     \<lparr>JSON_parse = map_of [(hi_payload, delta_value (js ''Hi'')),
                           (there_payload, delta_value (js '' there''))],
      number_zero = (\<lambda>n. n = 0),
      number_toString = (\<lambda>n. if n < 0 then js ''-'' @ nat_toString (nat (- n))
                               else nat_toString (nat n))\<rparr>"

definition both_callbacks :: callbacks where
  "both_callbacks = \<lparr>onStreamChunk = True, onStreamComplete = True\<rparr>"

definition settings0 :: settings where
  "settings0 = \<lparr>modelUrl = js ''https://api.example.org/v1/chat/completions'',
                 apiKey = js ''key'', modelName = js ''model''\<rparr>"

definition ok_response :: "stream_body \<Rightarrow> response" where
  "ok_response b = \<lparr>response_ok = True, response_status = 200, response_text = Inr [],
                     response_body = Some b\<rparr>"

text \<open>Scenario A: two delta frames, then the sentinel, in two chunks.\<close>

definition hi_chunk :: jsstring where
  "hi_chunk = js ''data: '' @ hi_payload @ [0x0A, 0x0A]"

definition there_chunk :: jsstring where
  "there_chunk = js ''data: '' @ there_payload @ [0x0A, 0x0A]"

definition there_done_chunk :: jsstring where
  "there_done_chunk =
     js ''data: '' @ there_payload @ [0x0A, 0x0A] @ js ''data: [DONE]'' @ [0x0A, 0x0A]"

definition scenario_A_body :: stream_body where
  "scenario_A_body = \<lparr>chunks = [hi_chunk, there_done_chunk], failure = None\<rparr>"

text \<open>The same stream closed by the transport before any sentinel.\<close>

definition closed_body :: stream_body where
  "closed_body = \<lparr>chunks = [hi_chunk, there_chunk], failure = None\<rparr>"

text \<open>Scenario C: a malformed frame between two valid ones, and the stream without it.\<close>

definition malformed_frame :: jsstring where
  "malformed_frame = js ''data: {not json''"

definition scenario_C_chunk :: jsstring where
  "scenario_C_chunk =
     js ''data: '' @ hi_payload @ [0x0A] @ malformed_frame @ [0x0A]
     @ js ''data: '' @ there_payload @ [0x0A] @ js ''data: [DONE]'' @ [0x0A]"

definition scenario_C_clean :: jsstring where
  "scenario_C_clean =
     js ''data: '' @ hi_payload @ [0x0A]
     @ js ''data: '' @ there_payload @ [0x0A] @ js ''data: [DONE]'' @ [0x0A]"


text \<open>The accumulator and the calls agree and no completion has been signalled.\<close>

definition chunk_inv :: "'n platform \<Rightarrow> 'n stream_state \<Rightarrow> bool" where
  "chunk_inv P st = (fragments P (trace st) = fullResponse st \<and> completions (trace st) = [])"

section \<open>Properties of the session store\<close>

lemma generateSessionId_nonempty: "generateSessionId e \<noteq> []"
  by (simp add: generateSessionId_def)

lemma falsy_Some: "falsy (Some k) = (k = [])"
  by (simp add: falsy_def)

lemma current_saveChatSessions:
  "currentChatSession (saveChatSessions e s) = currentChatSession s"
  by (simp add: saveChatSessions_def)

lemma sessions_saveChatSessions: "chatSessions (saveChatSessions e s) = chatSessions s"
  by (simp add: saveChatSessions_def)

lemma initChatSession_truthy: "\<not> falsy (currentChatSession (initChatSession e s))"
  by (simp add: initChatSession_def Let_def current_saveChatSessions falsy_Some
      generateSessionId_nonempty)

lemma initChatSession_noop: "\<not> falsy (currentChatSession s) \<Longrightarrow> initChatSession e s = s"
  by (simp add: initChatSession_def)

subsection \<open>Ids are never empty\<close>

text \<open>
  The constructor's state has no empty id, and no operation of the store introduces one:
  a generated id starts with \<open>chat_\<close>, and a pointer is only taken from the registry or,
  when truthy, from the stored copy. The theorems below about a pointer \<open>Some k\<close> assume
  \<open>k \<noteq> []\<close>; it holds in every state these operations reach.
\<close>

lemma list_all_update:
  "list_all P al \<Longrightarrow> P (k, v) \<Longrightarrow> list_all P (AList.update k v al)"
  by (induction al) auto

lemma ids_nonempty_save: "ids_nonempty s \<Longrightarrow> ids_nonempty (saveChatSessions e s)"
  by (auto simp: ids_nonempty_def saveChatSessions_def list_all_iff split: option.splits)

lemma ids_nonempty_store:
  assumes "ids_nonempty s" "k \<noteq> []" "session_id v \<noteq> []"
  shows "ids_nonempty (store_current k v s)"
  using assms by (simp add: ids_nonempty_def store_current_def list_all_update)

lemma ids_nonempty_lookup:
  "ids_nonempty s \<Longrightarrow> map_of (chatSessions s) k = Some v \<Longrightarrow> k \<noteq> [] \<and> session_id v \<noteq> []"
  by (auto simp: ids_nonempty_def list_all_iff dest!: map_of_SomeD)

lemma ids_nonempty_init: "ids_nonempty s \<Longrightarrow> ids_nonempty (initChatSession e s)"
proof -
  assume a: "ids_nonempty s"
  have "ids_nonempty (s\<lparr>currentChatSession := Some (generateSessionId e),
          chatSessions := AList.update (generateSessionId e)
            \<lparr>session_id = generateSessionId e, title = new_chat_title, messages = [],
             createdAt = now_createdAt e, updatedAt = now_updatedAt e, url = location_href e\<rparr>
            (chatSessions s)\<rparr>)"
    using a by (simp add: ids_nonempty_def list_all_update generateSessionId_nonempty)
  then show ?thesis
    using a by (simp add: initChatSession_def Let_def ids_nonempty_save)
qed

lemma ids_nonempty_addMessage: "ids_nonempty s \<Longrightarrow> ids_nonempty (addMessage e r c s)"
proof -
  assume a: "ids_nonempty s"
  define s1 where "s1 = (if falsy (currentChatSession s) then initChatSession e s else s)"
  have s1: "ids_nonempty s1" using a by (simp add: s1_def ids_nonempty_init)
  show ?thesis
    unfolding addMessage_def s1_def[symmetric] Let_def
    using s1 ids_nonempty_lookup[OF s1]
    by (auto split: option.splits intro!: ids_nonempty_save ids_nonempty_store)
qed

lemma ids_nonempty_clear: "ids_nonempty s \<Longrightarrow> ids_nonempty (clearCurrentChat e s)"
  unfolding clearCurrentChat_def
  using ids_nonempty_lookup[of s]
  by (auto split: option.splits intro!: ids_nonempty_save ids_nonempty_store)

lemma ids_nonempty_saveAI:
  "ids_nonempty s \<Longrightarrow> ids_nonempty (saveAIMessageToHistory e c s)"
proof -
  assume a: "ids_nonempty s"
  define s1 where "s1 = (if falsy (currentChatSession s) then initChatSession e s else s)"
  have s1: "ids_nonempty s1" using a by (simp add: s1_def ids_nonempty_init)
  show ?thesis
    unfolding saveAIMessageToHistory_def s1_def[symmetric] Let_def
    using s1 ids_nonempty_lookup[OF s1]
    by (auto split: option.splits intro!: ids_nonempty_save ids_nonempty_store)
qed

lemma ids_nonempty_switch:
  "ids_nonempty s \<Longrightarrow> ids_nonempty (snd (switchChatSession e k s))"
proof -
  assume a: "ids_nonempty s"
  show ?thesis
  proof (cases "map_of (chatSessions s) k")
    case None
    with a show ?thesis by (simp add: switchChatSession_def)
  next
    case (Some v)
    with ids_nonempty_lookup[OF a Some] a
    have "ids_nonempty (s\<lparr>currentChatSession := Some k\<rparr>)"
      by (simp add: ids_nonempty_def)
    with Some show ?thesis by (simp add: switchChatSession_def ids_nonempty_save)
  qed
qed

lemma list_all_fold_update:
  "list_all (\<lambda>v. session_id v \<noteq> []) sessions \<Longrightarrow>
   list_all (\<lambda>(k, v). k \<noteq> [] \<and> session_id v \<noteq> []) reg \<Longrightarrow>
   list_all (\<lambda>(k, v). k \<noteq> [] \<and> session_id v \<noteq> [])
     (fold (\<lambda>session. AList.update (session_id session) session) sessions reg)"
  by (induction sessions arbitrary: reg) (simp_all add: list_all_update)

lemma ids_nonempty_load: "ids_nonempty s \<Longrightarrow> ids_nonempty (loadChatSessions get_ok s)"
  unfolding loadChatSessions_def
  by (auto simp: ids_nonempty_def falsy_def list_all_fold_update split: option.splits)

lemma ids_nonempty_new: "ids_nonempty new_NimiMini"
  by (simp add: ids_nonempty_def new_NimiMini_def)

subsection \<open>The claims about the store\<close>

text \<open>
  C7. \<open>initChatSession\<close> is idempotent: a second call right after a first one changes
  nothing, so the current session id is the same after both calls, whatever the second
  call reads from the clock and the random generator; and whenever the pointer already
  names a session id the call is a no-op.
\<close>

theorem initChatSession_idempotent:
  "initChatSession e2 (initChatSession e1 s) = initChatSession e1 s
   \<and> currentChatSession (initChatSession e2 (initChatSession e1 s))
       = currentChatSession (initChatSession e1 s)
   \<and> (\<forall>k. currentChatSession s = Some k \<and> k \<noteq> [] \<longrightarrow> initChatSession e1 s = s)"
  by (simp add: initChatSession_noop initChatSession_truthy falsy_Some)

theorem initChatSession_idempotent_witness:
  "currentChatSession two_sessions = Some (js ''chat_1_a'') \<and> js ''chat_1_a'' \<noteq> []
   \<and> initChatSession env0 two_sessions = two_sessions
   \<and> currentChatSession (initChatSession env1 (initChatSession env0 new_NimiMini))
       = Some (js ''chat_1700000000000_k3j9x0q2a'')"
  using initChatSession_idempotent [of env1 env0 new_NimiMini]
    initChatSession_idempotent [of env1 env0 two_sessions]
  by (simp add: two_sessions_def new_NimiMini_def initChatSession_def falsy_def Let_def
      generateSessionId_def env0_def saveChatSessions_def)

lemma getChatContext_present:
  "currentChatSession s = Some k \<Longrightarrow> k \<noteq> [] \<Longrightarrow> map_of (chatSessions s) k = Some session
     \<Longrightarrow> getChatContext s = messages session"
  by (simp add: getChatContext_def falsy_def current_session_def)

lemma session_presentD:
  "session_present s \<Longrightarrow> \<exists>k session. currentChatSession s = Some k \<and> k \<noteq> [] \<and>
      map_of (chatSessions s) k = Some session"
  by (auto simp: session_present_def falsy_def current_session_def split: option.splits)

lemma addMessage_present:
  assumes "currentChatSession s = Some k" "k \<noteq> []" "map_of (chatSessions s) k = Some session"
  shows "currentChatSession (addMessage e r c s) = Some k"
    and "\<exists>session'. map_of (chatSessions (addMessage e r c s)) k = Some session' \<and>
           messages session' = messages session @ [message_of (e, r, c)]"
  using assms
  by (simp_all add: addMessage_def falsy_Some Let_def current_saveChatSessions
        sessions_saveChatSessions store_current_def update_conv' message_of_def)

lemma initChatSession_fresh:
  assumes "falsy (currentChatSession s)"
  shows "currentChatSession (initChatSession e s) = Some (generateSessionId e)"
    and "\<exists>session. map_of (chatSessions (initChatSession e s)) (generateSessionId e)
             = Some session \<and> messages session = []"
  using assms
  by (simp_all add: initChatSession_def Let_def current_saveChatSessions
        sessions_saveChatSessions update_conv')

text \<open>
  With a current session in the registry, the calls append to what it already holds.
\<close>

lemma addMessages_present:
  "currentChatSession s = Some k \<Longrightarrow> k \<noteq> [] \<Longrightarrow> map_of (chatSessions s) k = Some session
   \<Longrightarrow> getChatContext (addMessages calls s) = messages session @ map message_of calls"
proof (induction calls arbitrary: s session)
  case Nil
  then show ?case by (simp add: getChatContext_present)
next
  case (Cons x calls)
  obtain e r c where x: "x = (e, r, c)" by (cases x)
  from addMessage_present[OF Cons.prems, of e r c]
  obtain session' where p: "currentChatSession (addMessage e r c s) = Some k"
    and m: "map_of (chatSessions (addMessage e r c s)) k = Some session'"
    and ms: "messages session' = messages session @ [message_of (e, r, c)]"
    by blast
  from Cons.IH[OF p Cons.prems(2) m] ms x show ?case by simp
qed

lemma addMessage_init:
  "falsy (currentChatSession s) \<Longrightarrow> addMessage e r c s = addMessage e r c (initChatSession e s)"
  by (simp add: addMessage_def Let_def initChatSession_def current_saveChatSessions falsy_Some
      generateSessionId_nonempty)

lemma addMessages_fresh:
  assumes "fresh_session s"
  shows "getChatContext (addMessages calls s) = map message_of calls"
proof (cases "falsy (currentChatSession s)")
  case True
  show ?thesis
  proof (cases calls)
    case Nil
    with True show ?thesis by (simp add: getChatContext_def)
  next
    case (Cons x xs)
    obtain e r c where x: "x = (e, r, c)" by (cases x)
    from initChatSession_fresh[OF True, of e] obtain session where
      p: "currentChatSession (initChatSession e s) = Some (generateSessionId e)"
      and m: "map_of (chatSessions (initChatSession e s)) (generateSessionId e) = Some session"
      and ms: "messages session = []" by blast
    have "addMessages calls s = addMessages calls (initChatSession e s)"
      using Cons x addMessage_init[OF True] by simp
    with addMessages_present[OF p generateSessionId_nonempty m, of calls] ms
    show ?thesis by simp
  qed
next
  case False
  with assms obtain k session where "currentChatSession s = Some k" "k \<noteq> []"
    "map_of (chatSessions s) k = Some session" "messages session = []"
    by (auto simp: fresh_session_def falsy_def current_session_def split: option.splits)
  with addMessages_present[of s k session calls] show ?thesis by simp
qed

lemma getAIContext_eq:
  "getAIContext s = drop (length (getChatContext s) - 20) (getChatContext s)"
  by (simp add: getAIContext_def getChatContext_def maxMessages_def split: option.splits)

text \<open>
  C3. Starting from a session without messages (no current session yet, or a current
  session with an empty message list), after the \<open>N\<close> calls \<open>calls\<close> of \<open>addMessage\<close>
  \<open>getChatContext\<close> returns exactly the \<open>N\<close> messages of the calls, in call order, and
  \<open>getAIContext\<close> returns \<open>min N 20\<close> messages, the most recent ones, a suffix of what
  \<open>getChatContext\<close> returns.
\<close>

theorem addMessage_contexts:
  assumes "fresh_session s"
  shows "getChatContext (addMessages calls s) = map message_of calls
       \<and> length (getAIContext (addMessages calls s)) = min (length calls) 20
       \<and> getAIContext (addMessages calls s) = drop (length calls - 20) (map message_of calls)
       \<and> suffix (getAIContext (addMessages calls s)) (getChatContext (addMessages calls s))"
proof -
  have c: "getChatContext (addMessages calls s) = map message_of calls"
    by (rule addMessages_fresh[OF assms])
  have a: "getAIContext (addMessages calls s) = drop (length calls - 20) (map message_of calls)"
    by (simp add: getAIContext_eq c)
  show ?thesis
    by (simp add: c a suffix_drop)
qed

theorem addMessage_contexts_witness:
  "fresh_session new_NimiMini
   \<and> length (getChatContext (addMessages calls25 new_NimiMini)) = 25
   \<and> length (getAIContext (addMessages calls25 new_NimiMini)) = 20
   \<and> getAIContext (addMessages calls25 new_NimiMini) = drop 5 (map message_of calls25)"
proof -
  have f: "fresh_session new_NimiMini"
    by (simp add: fresh_session_def new_NimiMini_def falsy_def)
  have l: "length calls25 = 25"
    by (simp add: calls25_def)
  show ?thesis
    using addMessage_contexts [OF f, of calls25] by (simp add: l f)
qed

text \<open>
  C8. With a current session in the registry, \<open>clearCurrentChat\<close> empties that session's
  message list and resets its title to the placeholder (its \<open>updatedAt\<close> is refreshed, its
  other fields, the id among them, stay); the session stays in the registry under the same
  key, the registry holds the same keys in the same order, the pointer is unchanged, and
  the session under every other key is unchanged.
\<close>

theorem clearCurrentChat_frame:
  assumes "currentChatSession s = Some k" "k \<noteq> []" "map_of (chatSessions s) k = Some session"
  shows "map_of (chatSessions (clearCurrentChat e s)) k =
           Some (session\<lparr>messages := [], updatedAt := now_touched e, title := new_chat_title\<rparr>)
       \<and> currentChatSession (clearCurrentChat e s) = Some k
       \<and> map fst (chatSessions (clearCurrentChat e s)) = map fst (chatSessions s)
       \<and> (\<forall>k'. k' \<noteq> k \<longrightarrow>
            map_of (chatSessions (clearCurrentChat e s)) k' = map_of (chatSessions s) k')"
proof -
  have s': "chatSessions (clearCurrentChat e s) = AList.update k
      (session\<lparr>messages := [], updatedAt := now_touched e, title := new_chat_title\<rparr>)
      (chatSessions s)"
    and p': "currentChatSession (clearCurrentChat e s) = Some k"
    using assms
    by (simp_all add: clearCurrentChat_def falsy_Some current_saveChatSessions
        sessions_saveChatSessions store_current_def)
  have "k \<in> set (map fst (chatSessions s))"
    using assms(3) by (metis map_of_eq_None_iff option.distinct(1) set_map)
  then show ?thesis
    by (simp add: s' p' update_conv' update_keys)
qed

theorem clearCurrentChat_frame_witness:
  "currentChatSession two_sessions = Some (js ''chat_1_a'') \<and> js ''chat_1_a'' \<noteq> []
   \<and> map_of (chatSessions two_sessions) (js ''chat_1_a'') = Some hello_session
   \<and> map_of (chatSessions (clearCurrentChat env1 two_sessions)) (js ''chat_1_a'') =
        Some (hello_session\<lparr>messages := [], updatedAt := js ''2024-01-01T00:00:05.001Z'',
                            title := new_chat_title\<rparr>)
   \<and> map_of (chatSessions (clearCurrentChat env1 two_sessions)) (js ''chat_2_b'') =
        Some other_session"
proof -
  have p: "currentChatSession two_sessions = Some (js ''chat_1_a'')"
    by (simp add: two_sessions_def)
  have n: "js ''chat_1_a'' \<noteq> []"
    by simp
  have m: "map_of (chatSessions two_sessions) (js ''chat_1_a'') = Some hello_session"
    by (simp add: two_sessions_def)
  have o: "map_of (chatSessions two_sessions) (js ''chat_2_b'') = Some other_session"
    by (simp add: two_sessions_def)
  have d: "js ''chat_2_b'' \<noteq> js ''chat_1_a''"
    by simp
  from clearCurrentChat_frame [OF p n m, of env1] have
    a: "map_of (chatSessions (clearCurrentChat env1 two_sessions)) (js ''chat_1_a'') =
           Some (hello_session\<lparr>messages := [], updatedAt := now_touched env1,
                               title := new_chat_title\<rparr>)"
    and b: "\<forall>k'. k' \<noteq> js ''chat_1_a'' \<longrightarrow>
            map_of (chatSessions (clearCurrentChat env1 two_sessions)) k'
              = map_of (chatSessions two_sessions) k'"
    by blast+
  have t: "now_touched env1 = js ''2024-01-01T00:00:05.001Z''"
    by (simp add: env1_def)
  from a b d o p n m t show ?thesis
    by metis
qed

text \<open>
  C9. When the pointer names an id (non-null and, as every id is, non-empty) that the
  registry does not hold, \<open>addMessage\<close> returns without an exception and changes nothing:
  the state after the call, registry, pointer, every session and the stored copy, is the
  state before it; the message is dropped.
\<close>

theorem addMessage_dangling:
  assumes "currentChatSession s = Some k" "k \<noteq> []" "map_of (chatSessions s) k = None"
  shows "addMessage e r c s = s"
  using assms by (simp add: addMessage_def falsy_Some)

theorem addMessage_dangling_witness:
  "currentChatSession dangling = Some (js ''chat_9_z'') \<and> js ''chat_9_z'' \<noteq> []
   \<and> map_of (chatSessions dangling) (js ''chat_9_z'') = None
   \<and> addMessage env1 User (js ''Hello'') dangling = dangling"
proof -
  have p: "currentChatSession dangling = Some (js ''chat_9_z'')"
    by (simp add: dangling_def)
  have n: "js ''chat_9_z'' \<noteq> []"
    by simp
  have m: "map_of (chatSessions dangling) (js ''chat_9_z'') = None"
    by (simp add: dangling_def two_sessions_def)
  show ?thesis
    using addMessage_dangling [OF p n m, of env1 User "js ''Hello''"] p n m by simp
qed

lemma consecutive_assistants_snoc:
  "consecutive_assistants (ms @ [m]) =
     (consecutive_assistants ms \<or> (ms \<noteq> [] \<and> role (last ms) = Assistant \<and> role m = Assistant))"
  by (induction ms rule: consecutive_assistants.induct) auto

lemma saveAI_present:
  assumes "currentChatSession s = Some k" "k \<noteq> []" "map_of (chatSessions s) k = Some session"
  shows "getChatContext (saveAIMessageToHistory e c s) =
     (if messages session \<noteq> [] \<and> role (last (messages session)) = Assistant
      then butlast (messages session) @
           [(last (messages session))\<lparr>content := c, timestamp := now_timestamp e\<rparr>]
      else messages session @
           [\<lparr>role = Assistant, content = c, timestamp = now_timestamp e\<rparr>])"
  using assms
  by (simp add: saveAIMessageToHistory_def falsy_Some Let_def getChatContext_def
      current_session_def current_saveChatSessions sessions_saveChatSessions store_current_def
      update_conv' lastMessage_def)

lemma saveAI_absent:
  assumes "falsy (currentChatSession s)"
  shows "getChatContext (saveAIMessageToHistory e c s) =
           [\<lparr>role = Assistant, content = c, timestamp = now_timestamp e\<rparr>]"
proof -
  from initChatSession_fresh[OF assms, of e] obtain session where
    p: "currentChatSession (initChatSession e s) = Some (generateSessionId e)"
    and m: "map_of (chatSessions (initChatSession e s)) (generateSessionId e) = Some session"
    and ms: "messages session = []" by blast
  have "saveAIMessageToHistory e c s = saveAIMessageToHistory e c (initChatSession e s)"
    using assms
    by (simp add: saveAIMessageToHistory_def Let_def initChatSession_truthy)
  with saveAI_present[OF p generateSessionId_nonempty m, of e c] ms show ?thesis
    by simp
qed

text \<open>
  C10. \<open>saveAIMessageToHistory\<close> on a current session of the registry with messages \<open>ms\<close>:
  when the last message has role assistant, the new list is \<open>ms\<close> with the content and the
  timestamp of that last message overwritten, so it has as many messages as before; when
  \<open>ms\<close> is empty or its last message has role user, the new list is \<open>ms\<close> with one
  assistant message appended. In both cases the call creates no pair of consecutive
  assistant messages: the new list has such a pair exactly when \<open>ms\<close> had one. Without a
  current session the call creates one and its list is the one assistant message.
\<close>

theorem saveAIMessageToHistory_last:
  "(session_present s \<longrightarrow>
      (getChatContext s \<noteq> [] \<and> role (last (getChatContext s)) = Assistant \<longrightarrow>
         getChatContext (saveAIMessageToHistory e c s) =
           butlast (getChatContext s) @
           [(last (getChatContext s))\<lparr>content := c, timestamp := now_timestamp e\<rparr>]
         \<and> length (getChatContext (saveAIMessageToHistory e c s)) = length (getChatContext s))
    \<and> (getChatContext s = [] \<or> role (last (getChatContext s)) = User \<longrightarrow>
         getChatContext (saveAIMessageToHistory e c s) =
           getChatContext s @ [\<lparr>role = Assistant, content = c, timestamp = now_timestamp e\<rparr>])
    \<and> consecutive_assistants (getChatContext (saveAIMessageToHistory e c s))
        = consecutive_assistants (getChatContext s))
   \<and> (falsy (currentChatSession s) \<longrightarrow>
        getChatContext (saveAIMessageToHistory e c s) =
          [\<lparr>role = Assistant, content = c, timestamp = now_timestamp e\<rparr>])"
proof -
  have present: ?thesis if sp: "session_present s"
  proof -
    from session_presentD[OF sp] obtain k session where
      p: "currentChatSession s = Some k" and n: "k \<noteq> []"
      and m: "map_of (chatSessions s) k = Some session" by blast
    have nf: "\<not> falsy (currentChatSession s)"
      using p n by (simp add: falsy_Some)
    have old: "getChatContext s = messages session"
      by (rule getChatContext_present[OF p n m])
    note new = saveAI_present[OF p n m, of e c]
    show ?thesis
    proof (cases "messages session \<noteq> [] \<and> role (last (messages session)) = Assistant")
      case True
      then have new': "getChatContext (saveAIMessageToHistory e c s) =
          butlast (messages session) @
          [(last (messages session))\<lparr>content := c, timestamp := now_timestamp e\<rparr>]"
        using new by simp
      have "consecutive_assistants (butlast (messages session) @
          [(last (messages session))\<lparr>content := c, timestamp := now_timestamp e\<rparr>]) =
          consecutive_assistants (butlast (messages session) @ [last (messages session)])"
        by (simp add: consecutive_assistants_snoc)
      with True show ?thesis
        by (simp add: nf old new')
    next
      case False
      then have new': "getChatContext (saveAIMessageToHistory e c s) =
          messages session @ [\<lparr>role = Assistant, content = c, timestamp = now_timestamp e\<rparr>]"
        using new by (simp only: if_False)
      from False show ?thesis
        by (auto simp add: nf old new' consecutive_assistants_snoc)
    qed
  qed
  have absent: ?thesis if np: "\<not> session_present s"
    using np saveAI_absent[of s e c] by simp
  from present absent show ?thesis by blast
qed

theorem saveAIMessageToHistory_last_witness:
  "session_present two_sessions
   \<and> getChatContext two_sessions \<noteq> [] \<and> role (last (getChatContext two_sessions)) = Assistant
   \<and> getChatContext (saveAIMessageToHistory env1 (js ''Hi there'') two_sessions) =
       [\<lparr>role = User, content = js ''Hello'', timestamp = js ''t1''\<rparr>,
        \<lparr>role = Assistant, content = js ''Hi there'',
         timestamp = js ''2024-01-01T00:00:05.000Z''\<rparr>]
   \<and> falsy (currentChatSession new_NimiMini)
   \<and> getChatContext (saveAIMessageToHistory env1 (js ''Hi there'') new_NimiMini) =
       [\<lparr>role = Assistant, content = js ''Hi there'',
         timestamp = js ''2024-01-01T00:00:05.000Z''\<rparr>]"
proof -
  have sp: "session_present two_sessions"
    by (simp add: session_present_def two_sessions_def falsy_def current_session_def)
  have g: "getChatContext two_sessions = messages hello_session"
    by (simp add: getChatContext_def two_sessions_def falsy_def current_session_def)
  have f: "falsy (currentChatSession new_NimiMini)"
    by (simp add: new_NimiMini_def falsy_def)
  have t: "now_timestamp env1 = js ''2024-01-01T00:00:05.000Z''"
    by (simp add: env1_def)
  show ?thesis
    using saveAIMessageToHistory_last [of two_sessions env1 "js ''Hi there''"]
      saveAIMessageToHistory_last [of new_NimiMini env1 "js ''Hi there''"]
    by (simp add: sp g f t hello_session_def)
qed

section \<open>Properties of the streaming client\<close>

lemma fragments_append: "fragments P (xs @ ys) = fragments P xs @ fragments P ys"
  by (induction P xs rule: fragments.induct) simp_all

lemma completions_append: "completions (xs @ ys) = completions xs @ completions ys"
  by (induction xs rule: completions.induct) simp_all

lemma handle_data_inv:
  "onStreamChunk cb \<Longrightarrow> chunk_inv P st \<Longrightarrow> chunk_inv P (handle_data P cb d st)"
  by (simp add: handle_data_def chunk_inv_def Let_def fragments_append completions_append
      fragment_text_def split: option.splits)

lemma handle_data_completions:
  "completions (trace (handle_data P cb d st)) = completions (trace st)"
  by (simp add: handle_data_def Let_def completions_append split: option.splits)

lemma handle_data_malformed: "JSON_parse P d = None \<Longrightarrow> handle_data P cb d st = st"
  by (simp add: handle_data_def)

lemma handle_data_text:
  "prefix (js ''data: '') line \<Longrightarrow>
   fullResponse (handle_data P cb (drop 6 line) st) = fullResponse st @ frame_text P line"
  by (simp add: handle_data_def frame_text_def fragment_text_def Let_def split: option.splits)

lemma process_lines_done_iff:
  "fst (process_lines P cb ls st) = list_ex done_frame ls"
  by (induction ls arbitrary: st) (simp_all add: done_frame_def Let_def)

lemma process_lines_inv:
  assumes "onStreamChunk cb" "chunk_inv P st"
  shows "process_lines P cb ls st = (d, st') \<Longrightarrow>
     fragments P (trace st') = fullResponse st' \<and>
     completions (trace st') = (if d \<and> onStreamComplete cb then [fullResponse st'] else [])"
  using assms
proof (induction ls arbitrary: st)
  case Nil
  then show ?case by (auto simp: chunk_inv_def)
next
  case (Cons l ls)
  show ?case
  proof (cases "prefix (js ''data: '') l")
    case False
    with Cons show ?thesis by simp
  next
    case True
    show ?thesis
    proof (cases "drop 6 l = js ''[DONE]''")
      case d: True
      with True Cons.prems show ?thesis
        by (auto simp: chunk_inv_def fragments_append completions_append)
    next
      case d: False
      with True Cons.prems(1) have "process_lines P cb ls (handle_data P cb (drop 6 l) st) = (d, st')"
        by (simp add: Let_def)
      from Cons.IH[OF this Cons.prems(2) handle_data_inv[OF Cons.prems(2,3)]]
      show ?thesis .
    qed
  qed
qed

lemma process_lines_append:
  "process_lines P cb (xs @ ys) st =
     (case process_lines P cb xs st of (True, st') \<Rightarrow> (True, st')
                                     | (False, st') \<Rightarrow> process_lines P cb ys st')"
  by (induction xs arbitrary: st) (simp_all add: Let_def)

lemma read_loop_done:
  assumes "onStreamChunk cb" "onStreamComplete cb"
  shows "chunk_inv P st \<Longrightarrow> has_done cs \<Longrightarrow>
     snd (read_loop P cb cs fl st) = Inr (fragments P (fst (read_loop P cb cs fl st)))
     \<and> completions (fst (read_loop P cb cs fl st)) = [fragments P (fst (read_loop P cb cs fl st))]"
proof (induction cs arbitrary: st)
  case Nil
  then show ?case by (simp add: has_done_def)
next
  case (Cons c cs)
  obtain d st' where r: "process_lines P cb (lines_of c) st = (d, st')"
    by (cases "process_lines P cb (lines_of c) st")
  from process_lines_inv[OF assms(1) Cons.prems(1) r] assms(2)
  have i: "fragments P (trace st') = fullResponse st'"
    and c: "completions (trace st') = (if d then [fullResponse st'] else [])" by simp_all
  from process_lines_done_iff[of P cb "lines_of c" st] r
  have d: "d = list_ex done_frame (lines_of c)" by simp
  show ?case
  proof (cases d)
    case True
    with r i c show ?thesis by simp
  next
    case False
    with d Cons.prems(2) have h: "has_done cs" by (simp add: has_done_def)
    from False i c have "chunk_inv P st'" by (simp add: chunk_inv_def)
    from Cons.IH[OF this h] r False show ?thesis by simp
  qed
qed

text \<open>
  C1. When both callbacks are given, the request succeeds and some line of some chunk of
  the body is a frame whose payload is the sentinel, \<open>callChatAPI\<close> calls
  \<open>onStreamComplete\<close> exactly once, and the string it passes is the concatenation, in the
  order of the calls, of the fragments passed to \<open>onStreamChunk\<close>; \<open>callChatAPI\<close>
  returns the same string.
\<close>

theorem callChatAPI_done:
  assumes "onStreamChunk cb" "onStreamComplete cb"
    and "fetch (make_request cfg s) = Inr resp" "response_ok resp"
    and "response_body resp = Some b" "has_done (chunks b)"
  shows "snd (callChatAPI P fetch cfg s cb) = Inr (fragments P (fst (callChatAPI P fetch cfg s cb)))
     \<and> completions (fst (callChatAPI P fetch cfg s cb))
         = [fragments P (fst (callChatAPI P fetch cfg s cb))]"
proof -
  have i: "chunk_inv P \<lparr>fullResponse = [], trace = []\<rparr>"
    by (simp add: chunk_inv_def)
  have "callChatAPI P fetch cfg s cb =
      read_loop P cb (chunks b) (failure b) \<lparr>fullResponse = [], trace = []\<rparr>"
    using assms(3-5) by (simp add: callChatAPI_def)
  with read_loop_done[OF assms(1,2) i assms(6), of "failure b"] show ?thesis by simp
qed


lemma scenario_parse:
  "JSON_parse scenario_platform hi_payload = Some (delta_value (js ''Hi''))"
  "JSON_parse scenario_platform there_payload = Some (delta_value (js '' there''))"
  "JSON_parse scenario_platform (js ''{not json'') = None"
  by (simp_all add: scenario_platform_def hi_payload_def there_payload_def)

lemma scenario_delta_content:
  "delta_content scenario_platform (delta_value c) = (if c = [] then None else Some (JString c))"
  by (simp add: delta_content_def delta_value_def)

lemma payload_not_done:
  "hi_payload \<noteq> [91, 68, 79, 78, 69, 93]" "there_payload \<noteq> [91, 68, 79, 78, 69, 93]"
  by (simp_all add: hi_payload_def there_payload_def)

lemma scenario_lines:
  "lines_of hi_chunk = [js ''data: '' @ hi_payload]"
  "lines_of there_chunk = [js ''data: '' @ there_payload]"
  "lines_of there_done_chunk = [js ''data: '' @ there_payload, js ''data: [DONE]'']"
  "lines_of scenario_C_chunk =
     [js ''data: '' @ hi_payload, malformed_frame, js ''data: '' @ there_payload, js ''data: [DONE]'']"
  "lines_of scenario_C_clean =
     [js ''data: '' @ hi_payload, js ''data: '' @ there_payload, js ''data: [DONE]'']"
  by (simp_all add: lines_of_def hi_chunk_def there_chunk_def there_done_chunk_def
      scenario_C_chunk_def scenario_C_clean_def malformed_frame_def hi_payload_def
      there_payload_def whitespace_def)

theorem callChatAPI_done_witness:
  "onStreamChunk both_callbacks \<and> onStreamComplete both_callbacks
   \<and> response_ok (ok_response scenario_A_body)
   \<and> response_body (ok_response scenario_A_body) = Some scenario_A_body
   \<and> has_done (chunks scenario_A_body)
   \<and> callChatAPI scenario_platform (\<lambda>req. Inr (ok_response scenario_A_body)) settings0
        new_NimiMini both_callbacks =
       ([StreamChunk (JString (js ''Hi'')) (js ''Hi''),
         StreamChunk (JString (js '' there'')) (js ''Hi there''),
         StreamComplete (js ''Hi there'')],
        Inr (js ''Hi there''))"
proof -
  have c: "onStreamChunk both_callbacks" "onStreamComplete both_callbacks"
    by (simp_all add: both_callbacks_def)
  have f: "(\<lambda>req. Inr (ok_response scenario_A_body)) (make_request settings0 new_NimiMini)
             = (Inr (ok_response scenario_A_body) :: error + response)"
    by simp
  have o: "response_ok (ok_response scenario_A_body)"
    by (simp add: ok_response_def)
  have b: "response_body (ok_response scenario_A_body) = Some scenario_A_body"
    by (simp add: ok_response_def)
  have h: "has_done (chunks scenario_A_body)"
    by (simp add: has_done_def scenario_A_body_def scenario_lines done_frame_def)
  have call: "callChatAPI scenario_platform (\<lambda>req. Inr (ok_response scenario_A_body)) settings0
        new_NimiMini both_callbacks =
      read_loop scenario_platform both_callbacks [hi_chunk, there_done_chunk] None
        \<lparr>fullResponse = [], trace = []\<rparr>"
    by (simp add: callChatAPI_def ok_response_def scenario_A_body_def)
  have r: "callChatAPI scenario_platform (\<lambda>req. Inr (ok_response scenario_A_body)) settings0
        new_NimiMini both_callbacks =
       ([StreamChunk (JString (js ''Hi'')) (js ''Hi''),
         StreamChunk (JString (js '' there'')) (js ''Hi there''),
         StreamComplete (js ''Hi there'')],
        Inr (js ''Hi there''))"
    unfolding call
    by (simp add: scenario_lines handle_data_def scenario_parse scenario_delta_content
        payload_not_done both_callbacks_def Let_def)
  from callChatAPI_done [of both_callbacks "\<lambda>req. Inr (ok_response scenario_A_body)" settings0
      new_NimiMini "ok_response scenario_A_body" scenario_A_body scenario_platform,
      OF c f o b h] c o b h r
  show ?thesis by simp
qed

lemma process_lines_completions:
  "\<not> list_ex done_frame ls \<Longrightarrow>
     completions (trace (snd (process_lines P cb ls st))) = completions (trace st)"
  by (induction ls arbitrary: st) (simp_all add: done_frame_def Let_def handle_data_completions)

lemma read_loop_no_done:
  "\<not> has_done cs \<Longrightarrow>
     completions (fst (read_loop P cb cs fl st)) = completions (trace st)
     \<and> (fl = None \<longrightarrow> (\<exists>full. snd (read_loop P cb cs fl st) = Inr full))"
proof (induction cs arbitrary: st)
  case Nil
  then show ?case by (simp split: option.splits)
next
  case (Cons c cs)
  obtain d st' where r: "process_lines P cb (lines_of c) st = (d, st')"
    by (cases "process_lines P cb (lines_of c) st")
  from Cons.prems have n: "\<not> list_ex done_frame (lines_of c)" and h: "\<not> has_done cs"
    by (simp_all add: has_done_def)
  from process_lines_done_iff[of P cb "lines_of c" st] r n have d: "\<not> d" by simp
  from process_lines_completions[OF n, of P cb st] r
  have "completions (trace st') = completions (trace st)" by simp
  with Cons.IH[OF h, of st'] r d show ?case by simp
qed

text \<open>
  C2. What the code does when the transport ends without a sentinel frame. On the stream
  of scenario A closed after its two delta frames, \<open>callChatAPI\<close> returns the accumulated
  text without an error, after the two calls of \<open>onStreamChunk\<close>, and has not called
  \<open>onStreamComplete\<close>: the only call of that callback is in the branch of the sentinel.
\<close>

theorem callChatAPI_closed_without_done:
  "callChatAPI scenario_platform (\<lambda>req. Inr (ok_response closed_body)) settings0
        new_NimiMini both_callbacks =
       ([StreamChunk (JString (js ''Hi'')) (js ''Hi''),
         StreamChunk (JString (js '' there'')) (js ''Hi there'')],
        Inr (js ''Hi there''))
   \<and> completions (fst (callChatAPI scenario_platform (\<lambda>req. Inr (ok_response closed_body))
        settings0 new_NimiMini both_callbacks)) = []"
proof -
  have call: "callChatAPI scenario_platform (\<lambda>req. Inr (ok_response closed_body)) settings0
        new_NimiMini both_callbacks =
      read_loop scenario_platform both_callbacks [hi_chunk, there_chunk] None
        \<lparr>fullResponse = [], trace = []\<rparr>"
    by (simp add: callChatAPI_def ok_response_def closed_body_def)
  have "read_loop scenario_platform both_callbacks [hi_chunk, there_chunk] None
        \<lparr>fullResponse = [], trace = []\<rparr> =
       ([StreamChunk (JString (js ''Hi'')) (js ''Hi''),
         StreamChunk (JString (js '' there'')) (js ''Hi there'')],
        Inr (js ''Hi there''))"
    by (simp add: scenario_lines handle_data_def scenario_parse scenario_delta_content
        payload_not_done both_callbacks_def Let_def)
  with call show ?thesis by simp
qed

lemma process_lines_skip:
  assumes "prefix (js ''data: '') bad" "drop 6 bad \<noteq> js ''[DONE]''" "JSON_parse P (drop 6 bad) = None"
  shows "process_lines P cb (xs @ bad # ys) st = process_lines P cb (xs @ ys) st"
proof -
  have "process_lines P cb (bad # ys) st' = process_lines P cb ys st'" for st'
    using assms by (simp add: Let_def handle_data_malformed)
  then show ?thesis
    by (simp add: process_lines_append[of P cb xs] split: prod.splits bool.splits)
qed

lemma process_lines_text:
  "fullResponse (snd (process_lines P cb ls st)) =
     fullResponse st @ concat (map (frame_text P) (takeWhile (\<lambda>l. \<not> done_frame l) ls))"
proof (induction ls arbitrary: st)
  case Nil
  then show ?case by simp
next
  case (Cons l ls)
  show ?case
  proof (cases "prefix (js ''data: '') l")
    case False
    with Cons show ?thesis by (simp add: done_frame_def frame_text_def)
  next
    case True
    with Cons show ?thesis
      by (simp add: done_frame_def Let_def handle_data_text)
  qed
qed

lemma read_loop_flat:
  "read_loop P cb cs fl st =
     (case process_lines P cb (concat (map lines_of cs)) st of
        (True, st') \<Rightarrow> (trace st', Inr (fullResponse st'))
      | (False, st') \<Rightarrow> (case fl of None \<Rightarrow> (trace st', Inr (fullResponse st'))
                                   | Some e \<Rightarrow> (trace st', Inl e)))"
proof (induction cs arbitrary: st)
  case Nil
  then show ?case by simp
next
  case (Cons c cs)
  obtain d st' where r: "process_lines P cb (lines_of c) st = (d, st')"
    by (cases "process_lines P cb (lines_of c) st")
  show ?case
    by (cases d) (simp_all add: r process_lines_append Cons.IH)
qed

text \<open>
  C5. A data frame whose payload is not the sentinel and on which \<open>JSON.parse\<close> throws
  adds nothing to the accumulator and makes no callback call, and the loop goes on:
  the lines with the frame between them are processed exactly as the lines without it
  (same accumulator, same callback calls, same exit), the accumulated text is the
  concatenation of the texts of the other frames up to the sentinel, and a body whose
  lines contain the frame gives the same calls and the same result as a body with the
  other lines only.
\<close>

theorem malformed_frame_skipped:
  assumes "prefix (js ''data: '') bad" "drop 6 bad \<noteq> js ''[DONE]''" "JSON_parse P (drop 6 bad) = None"
  shows "handle_data P cb (drop 6 bad) st = st
     \<and> frame_text P bad = []
     \<and> process_lines P cb (xs @ bad # ys) st = process_lines P cb (xs @ ys) st
     \<and> fullResponse (snd (process_lines P cb (xs @ bad # ys) st)) =
         fullResponse st @ concat (map (frame_text P) (takeWhile (\<lambda>l. \<not> done_frame l) (xs @ ys)))
     \<and> (concat (map lines_of cs) = xs @ bad # ys \<and> concat (map lines_of cs') = xs @ ys \<longrightarrow>
          read_loop P cb cs fl st = read_loop P cb cs' fl st)"
proof -
  note skip = process_lines_skip[OF assms]
  have a: "handle_data P cb (drop 6 bad) st = st"
    by (rule handle_data_malformed[OF assms(3)])
  have b: "frame_text P bad = []"
    using assms by (simp add: frame_text_def)
  have c: "fullResponse (snd (process_lines P cb (xs @ bad # ys) st)) =
         fullResponse st @ concat (map (frame_text P) (takeWhile (\<lambda>l. \<not> done_frame l) (xs @ ys)))"
    by (simp only: skip process_lines_text)
  have d: "read_loop P cb cs fl st = read_loop P cb cs' fl st"
    if "concat (map lines_of cs) = xs @ bad # ys" "concat (map lines_of cs') = xs @ ys"
    using that by (simp only: read_loop_flat skip)
  from a b c d skip show ?thesis by blast
qed

theorem malformed_frame_skipped_witness:
  "prefix (js ''data: '') malformed_frame \<and> drop 6 malformed_frame \<noteq> js ''[DONE]''
   \<and> JSON_parse scenario_platform (drop 6 malformed_frame) = None
   \<and> concat (map lines_of [scenario_C_chunk]) =
       [js ''data: '' @ hi_payload] @ malformed_frame #
       [js ''data: '' @ there_payload, js ''data: [DONE]'']
   \<and> concat (map lines_of [scenario_C_clean]) =
       [js ''data: '' @ hi_payload] @ [js ''data: '' @ there_payload, js ''data: [DONE]'']
   \<and> read_loop scenario_platform both_callbacks [scenario_C_chunk] None
        \<lparr>fullResponse = [], trace = []\<rparr> =
       ([StreamChunk (JString (js ''Hi'')) (js ''Hi''),
         StreamChunk (JString (js '' there'')) (js ''Hi there''),
         StreamComplete (js ''Hi there'')],
        Inr (js ''Hi there''))"
proof -
  have a: "prefix (js ''data: '') malformed_frame"
    by (simp add: malformed_frame_def)
  have b: "drop 6 malformed_frame \<noteq> js ''[DONE]''"
    by (simp add: malformed_frame_def)
  have c: "JSON_parse scenario_platform (drop 6 malformed_frame) = None"
    using scenario_parse(3) by (simp add: malformed_frame_def)
  have d: "concat (map lines_of [scenario_C_chunk]) =
       [js ''data: '' @ hi_payload] @ malformed_frame #
       [js ''data: '' @ there_payload, js ''data: [DONE]'']"
    by (simp add: scenario_lines)
  have e: "concat (map lines_of [scenario_C_clean]) =
       [js ''data: '' @ hi_payload] @ [js ''data: '' @ there_payload, js ''data: [DONE]'']"
    by (simp add: scenario_lines)
  have clean: "read_loop scenario_platform both_callbacks [scenario_C_clean] None
        \<lparr>fullResponse = [], trace = []\<rparr> =
       ([StreamChunk (JString (js ''Hi'')) (js ''Hi''),
         StreamChunk (JString (js '' there'')) (js ''Hi there''),
         StreamComplete (js ''Hi there'')],
        Inr (js ''Hi there''))"
    by (simp add: scenario_lines handle_data_def scenario_parse scenario_delta_content
        payload_not_done both_callbacks_def Let_def)
  from malformed_frame_skipped [OF a b c, of both_callbacks
      "\<lparr>fullResponse = [], trace = []\<rparr>" "[js ''data: '' @ hi_payload]"
      "[js ''data: '' @ there_payload, js ''data: [DONE]'']"
      "[scenario_C_chunk]" "[scenario_C_clean]" None] d e
  have "read_loop scenario_platform both_callbacks [scenario_C_chunk] None
          \<lparr>fullResponse = [], trace = []\<rparr> =
        read_loop scenario_platform both_callbacks [scenario_C_clean] None
          \<lparr>fullResponse = [], trace = []\<rparr>"
    by blast
  with clean a b c d e show ?thesis by simp
qed



section \<open>Properties of the Markdown renderer\<close>

subsection \<open>Safe markup\<close>

lemma tag_head_append: "tag_head t \<Longrightarrow> tag_head (t @ u)"
  by (cases t) (auto split: list.splits)

lemma tag_head_tag_char: "tag_head t \<Longrightarrow> t \<noteq> [] \<and> tag_char (hd t)"
  by (cases t) (auto simp: tag_char_def)

lemma tag_head_cut:
  "tag_head (a @ b) \<Longrightarrow> b = [] \<or> \<not> tag_char (hd b) \<Longrightarrow> a \<noteq> [] \<or> b \<noteq> [] \<Longrightarrow> tag_head a"
  apply (cases a)
   apply (auto dest: tag_head_tag_char)[1]
  subgoal for x a'
    apply (cases a')
     apply (cases b)
      apply (auto simp: tag_char_def split: list.splits)
    done
  done

lemma tag_safe_append: "tag_safe a \<Longrightarrow> tag_safe b \<Longrightarrow> tag_safe (a @ b)"
  by (induction a) (auto simp: tag_head_append)

lemma tag_safe_suffix: "tag_safe (a @ b) \<Longrightarrow> tag_safe b"
  by (induction a) auto

lemma tag_safe_prefix:
  "tag_safe (a @ b) \<Longrightarrow> b = [] \<or> \<not> tag_char (hd b) \<Longrightarrow> tag_safe a"
proof (induction a)
  case Nil
  then show ?case by simp
next
  case (Cons c a)
  then have "tag_safe a" by simp
  moreover have "tag_head a" if "c = 0x3C"
  proof -
    from that Cons.prems(1) have h: "tag_head (a @ b)" by simp
    show ?thesis
    proof (cases "a = [] \<and> b = []")
      case True
      with h show ?thesis by simp
    next
      case False
      with tag_head_cut[OF h Cons.prems(2)] show ?thesis by blast
    qed
  qed
  ultimately show ?case by simp
qed

lemma tag_safe_factor:
  "tag_safe (u @ cap @ v) \<Longrightarrow> v = [] \<or> \<not> tag_char (hd v) \<Longrightarrow> tag_safe cap"
  using tag_safe_prefix tag_safe_suffix by blast

lemma tag_safe_no_lt: "0x3C \<notin> set s \<Longrightarrow> tag_safe s"
  by (induction s) auto

lemma tag_safe_no_script: "tag_safe s \<Longrightarrow> \<not> sublist (js ''<script'') s"
proof
  assume s: "tag_safe s" and "sublist (js ''<script'') s"
  then obtain ps ss where "s = ps @ js ''<script'' @ ss"
    by (auto simp: sublist_def)
  with s have "tag_safe (js ''<script'' @ ss)"
    using tag_safe_suffix by blast
  then show False by simp
qed

lemma expand_safe:
  "\<forall>cap \<in> set caps. tag_safe cap \<Longrightarrow> tag_safe (x @ tmpl) \<Longrightarrow> tag_safe (x @ expand caps tmpl)"
proof (induction caps tmpl arbitrary: x rule: expand.induct)
  case (1 caps c d t)
  show ?case
  proof (cases "c = 0x24 \<and> 0x31 \<le> d \<and> d \<le> 0x39 \<and> unat d - 0x31 < length caps")
    case True
    then have c: "c = 0x24" and i: "unat d - 0x31 < length caps" by simp_all
    from "1.prems"(2) c have "tag_safe x"
      using tag_safe_prefix[of x "c # d # t"] by (simp add: tag_char_def)
    moreover from "1.prems"(2) have "tag_safe t"
      using tag_safe_suffix[of "x @ [c, d]" t] by simp
    moreover from i "1.prems"(1) have "tag_safe (caps ! (unat d - 0x31))" by simp
    ultimately have "tag_safe ((x @ caps ! (unat d - 0x31)) @ t)"
      by (simp add: tag_safe_append)
    from "1.IH"(1)[OF True "1.prems"(1) this]
    have r: "tag_safe (x @ caps ! (unat d - 0x31) @ expand caps t)" by simp
    have "expand caps (c # d # t) = caps ! (unat d - 0x31) @ expand caps t"
      using True by simp
    with r show ?thesis by simp
  next
    case False
    from "1.prems"(2) have "tag_safe ((x @ [c]) @ d # t)" by simp
    from "1.IH"(2)[OF False "1.prems"(1) this]
    have r: "tag_safe (x @ c # expand caps (d # t))" by simp
    have "expand caps (c # d # t) = c # expand caps (d # t)"
      using False by auto
    with r show ?thesis by simp
  qed
qed simp_all

lemma clean_matcherD:
  assumes "clean_matcher m" "m bol s = Some (caps, n)"
  shows "0 < n" "n \<le> length s" "\<not> tag_char (hd s)"
    "\<forall>cap \<in> set caps. \<exists>u v. s = u @ cap @ v \<and> (v = [] \<or> \<not> tag_char (hd v))"
  using assms unfolding clean_matcher_def by blast+

lemma replace_all_safe:
  "clean_matcher m \<Longrightarrow> tag_safe tmpl \<Longrightarrow> tag_safe (x @ s)
     \<Longrightarrow> tag_safe (x @ replace_all m tmpl bol s)"
proof (induction m tmpl bol s arbitrary: x rule: replace_all.induct)
  case (1 m tmpl bol)
  have "m bol [] = None"
  proof (cases "m bol []")
    case (Some r)
    obtain caps n where "r = (caps, n)" by (cases r)
    with Some clean_matcherD(1,2)[OF "1.prems"(1), of bol "[]" caps n] show ?thesis
      by simp
  qed simp
  then show ?case using 1 by simp
next
  case (2 m tmpl bol c cs)
  note cm = "2.prems"(1) and ts = "2.prems"(2) and safe = "2.prems"(3)
  show ?case
  proof (cases "m bol (c # cs)")
    case None
    from safe have "tag_safe ((x @ [c]) @ cs)" by simp
    from "2.IH"(1)[OF None cm ts this] None show ?thesis by simp
  next
    case (Some r)
    obtain caps n where r: "r = (caps, n)" by (cases r)
    from Some r have mr: "m bol (c # cs) = Some (caps, n)" by simp
    from clean_matcherD[OF cm mr]
    have n: "0 < n" "n \<le> length (c # cs)" and h: "\<not> tag_char c"
      and caps: "\<forall>cap \<in> set caps. \<exists>u v. c # cs = u @ cap @ v \<and> (v = [] \<or> \<not> tag_char (hd v))"
      by simp_all
    from safe h have sx: "tag_safe x"
      using tag_safe_prefix[of x "c # cs"] by simp
    from safe have ss: "tag_safe (c # cs)"
      using tag_safe_suffix by blast
    have sc: "\<forall>cap \<in> set caps. tag_safe cap"
    proof
      fix cap assume "cap \<in> set caps"
      with caps obtain u v where "c # cs = u @ cap @ v" "v = [] \<or> \<not> tag_char (hd v)"
        by blast
      with ss show "tag_safe cap"
        using tag_safe_factor[of u cap v] by simp
    qed
    have "tag_safe (take n (c # cs) @ drop n (c # cs))"
      using ss by simp
    then have sd: "tag_safe (drop n (c # cs))"
      by (rule tag_safe_suffix)
    have se: "tag_safe (expand caps tmpl)"
      using expand_safe[OF sc, of "[]" tmpl] ts by simp
    from sx se sd have "tag_safe ((x @ expand caps tmpl) @ drop n (c # cs))"
      by (simp add: tag_safe_append)
    from "2.IH"(3)[OF Some r[symmetric] _ cm ts this] n
    have "tag_safe (x @ expand caps tmpl @ replace_all m tmpl
        (line_terminator ((c # cs) ! (min n (length (c # cs)) - 1))) (drop n (c # cs)))"
      by simp
    with Some r n show ?thesis by simp
  qed
qed

subsection \<open>The shape of the matches\<close>

lemma not_tag_char_line_terminator: "line_terminator c \<Longrightarrow> \<not> tag_char c"
  by (auto simp: line_terminator_def tag_char_def)

lemma not_tag_char_whitespace: "whitespace c \<Longrightarrow> \<not> tag_char c"
  by (auto simp: whitespace_def tag_char_def)

lemma not_tag_char_delimiter: "delimiter c \<Longrightarrow> \<not> tag_char c"
  by (auto simp: delimiter_def whitespace_def line_terminator_def tag_char_def)

lemma dropWhile_head: "dropWhile P xs = [] \<or> \<not> P (hd (dropWhile P xs))"
  by (metis hd_dropWhile)

lemma find_close_Some: "find_close d t = Some cap \<Longrightarrow> \<exists>rest. t = cap @ d @ rest"
proof (induction t arbitrary: cap)
  case Nil
  then show ?case by simp
next
  case (Cons c cs)
  show ?case
  proof (cases "prefix d (c # cs)")
    case True
    with Cons.prems show ?thesis by (auto simp: prefix_def)
  next
    case False
    with Cons.prems obtain cap' where "find_close d cs = Some cap'" "cap = c # cap'"
      by (auto split: if_splits)
    with Cons.IH show ?thesis by auto
  qed
qed

lemma takeWhile_neq_split:
  assumes "length (takeWhile (\<lambda>x. x \<noteq> q) t) < length t"
  shows "\<exists>rest. t = takeWhile (\<lambda>x. x \<noteq> q) t @ q # rest"
proof -
  have t: "t = takeWhile (\<lambda>x. x \<noteq> q) t @ dropWhile (\<lambda>x. x \<noteq> q) t" by simp
  with assms have ne: "dropWhile (\<lambda>x. x \<noteq> q) t \<noteq> []"
    by (metis append_Nil2 less_irrefl)
  with dropWhile_head[of "\<lambda>x. x \<noteq> q" t] have "hd (dropWhile (\<lambda>x. x \<noteq> q) t) = q" by blast
  with ne have "dropWhile (\<lambda>x. x \<noteq> q) t = q # tl (dropWhile (\<lambda>x. x \<noteq> q) t)"
    by (metis list.collapse)
  with t show ?thesis by metis
qed

lemma takeWhile_take: "take (length (takeWhile P s)) s = takeWhile P s"
  by (metis append_eq_conv_conj takeWhile_dropWhile_id)

lemma heading_shape:
  assumes "match_heading marker bol s = Some (caps, n)"
  shows "\<exists>line rest. s = marker @ line @ rest \<and> caps = [line]
           \<and> n = length (marker @ line) \<and> (rest = [] \<or> line_terminator (hd rest))"
proof -
  define r where "r = drop (length marker) s"
  define line where "line = takeWhile (\<lambda>c. \<not> line_terminator c) r"
  from assms have p: "prefix marker s" and c: "caps = [line]"
    and n: "n = length marker + length line"
    by (auto simp: match_heading_def Let_def line_def r_def split: if_splits)
  from p have s: "s = marker @ r"
    by (auto simp: prefix_def r_def)
  have "r = line @ dropWhile (\<lambda>c. \<not> line_terminator c) r"
    by (simp add: line_def)
  with s have "s = marker @ line @ dropWhile (\<lambda>c. \<not> line_terminator c) r" by simp
  moreover have "dropWhile (\<lambda>c. \<not> line_terminator c) r = [] \<or>
      line_terminator (hd (dropWhile (\<lambda>c. \<not> line_terminator c) r))"
    using dropWhile_head[of "\<lambda>c. \<not> line_terminator c" r] by simp
  ultimately show ?thesis using c n by auto
qed

lemma delimited_shape:
  assumes "match_delimited d bol s = Some (caps, n)"
  shows "\<exists>cap rest. s = d @ cap @ d @ rest \<and> caps = [cap] \<and> n = length (d @ cap @ d)"
proof -
  from assms obtain cap where p: "prefix d s" and f: "find_close d (drop (length d) s) = Some cap"
    and c: "caps = [cap]" and n: "n = length d + length cap + length d"
    by (auto simp: match_delimited_def split: if_splits option.splits)
  from find_close_Some[OF f] obtain rest where "drop (length d) s = cap @ d @ rest" by blast
  with p have "s = d @ cap @ d @ rest"
    by (auto simp: prefix_def)
  with c n show ?thesis by auto
qed

lemma code_shape:
  assumes "match_code bol s = Some (caps, n)"
  shows "\<exists>cap rest. s = [0x60] @ cap @ [0x60] @ rest \<and> caps = [cap]
           \<and> n = length ([0x60] @ cap @ [0x60])"
proof -
  from assms obtain t where s: "s = 0x60 # t"
    by (auto simp: match_code_def split: list.splits if_splits)
  define cap where "cap = takeWhile (\<lambda>x. x \<noteq> 0x60) t"
  from assms s have l: "length cap < length t" and c: "caps = [cap]" and n: "n = length cap + 2"
    by (auto simp: match_code_def Let_def cap_def split: if_splits)
  from takeWhile_neq_split[of "0x60" t] l obtain rest where "t = cap @ 0x60 # rest"
    unfolding cap_def by blast
  with s c n show ?thesis by auto
qed

lemma list_shape:
  assumes "match_list bol s = Some (caps, n)"
  shows "\<exists>ws m item rest. s = (ws @ [m, 0x20]) @ item @ rest \<and> caps = [item]
           \<and> n = length ((ws @ [m, 0x20]) @ item) \<and> list_all whitespace ws
           \<and> (m = 0x2D \<or> m = 0x2A \<or> m = 0x2B) \<and> (rest = [] \<or> line_terminator (hd rest))"
proof -
  define ws where "ws = takeWhile whitespace s"
  from assms obtain m sp t where d: "drop (length ws) s = m # sp # t"
    and m: "m = 0x2D \<or> m = 0x2A \<or> m = 0x2B" and sp: "sp = 0x20"
    by (auto simp: match_list_def Let_def ws_def split: if_splits list.splits)
  define item where "item = takeWhile (\<lambda>c. \<not> line_terminator c) t"
  from assms d m sp have c: "caps = [item]" and n: "n = length ws + 2 + length item"
    by (auto simp: match_list_def Let_def ws_def item_def split: if_splits)
  have "s = take (length ws) s @ drop (length ws) s" by simp
  with d have s: "s = ws @ m # sp # t" by (simp add: ws_def takeWhile_take)
  have "t = item @ dropWhile (\<lambda>c. \<not> line_terminator c) t" by (simp add: item_def)
  with s sp have "s = (ws @ [m, 0x20]) @ item @ dropWhile (\<lambda>c. \<not> line_terminator c) t"
    by simp
  moreover have "dropWhile (\<lambda>c. \<not> line_terminator c) t = [] \<or>
      line_terminator (hd (dropWhile (\<lambda>c. \<not> line_terminator c) t))"
    using dropWhile_head[of "\<lambda>c. \<not> line_terminator c" t] by simp
  moreover have "list_all whitespace ws"
    by (auto simp: ws_def list_all_iff dest: set_takeWhileD)
  ultimately have "s = (ws @ [m, 0x20]) @ item @ dropWhile (\<lambda>c. \<not> line_terminator c) t
      \<and> caps = [item] \<and> n = length ((ws @ [m, 0x20]) @ item) \<and> list_all whitespace ws
      \<and> (m = 0x2D \<or> m = 0x2A \<or> m = 0x2B)
      \<and> (dropWhile (\<lambda>c. \<not> line_terminator c) t = [] \<or>
           line_terminator (hd (dropWhile (\<lambda>c. \<not> line_terminator c) t)))"
    using c n m by simp
  then show ?thesis by blast
qed

lemma link_shape:
  assumes "match_link bol s = Some (caps, n)"
  shows "\<exists>label href rest. s = [0x5B] @ label @ [0x5D, 0x28] @ href @ [0x29] @ rest
           \<and> caps = [label, href] \<and> n = length ([0x5B] @ label @ [0x5D, 0x28] @ href @ [0x29])"
proof -
  from assms obtain t where s: "s = 0x5B # t"
    by (auto simp: match_link_def split: list.splits if_splits)
  define label where "label = takeWhile (\<lambda>x. x \<noteq> 0x5D) t"
  define after where "after = drop (length label) t"
  define href where "href = takeWhile (\<lambda>x. x \<noteq> 0x29) (drop 2 after)"
  from assms s have p: "prefix [0x5D, 0x28] after" and l: "length href < length (drop 2 after)"
    and c: "caps = [label, href]" and n: "n = length label + length href + 4"
    by (auto simp: match_link_def Let_def label_def after_def href_def split: if_splits)
  have "t = take (length label) t @ after" by (simp add: after_def)
  then have t: "t = label @ after" by (simp add: label_def takeWhile_take)
  from p have af: "after = [0x5D, 0x28] @ drop 2 after"
    by (auto simp: prefix_def)
  from takeWhile_neq_split[of "0x29" "drop 2 after"] l obtain rest where
    r: "drop 2 after = href @ 0x29 # rest"
    unfolding href_def by blast
  have "s = [0x5B] @ label @ [0x5D, 0x28] @ href @ [0x29] @ rest"
    using s t af r by simp
  with c n show ?thesis by auto
qed

lemma one_group_heading:
  assumes "marker \<noteq> []" "list_all delimiter marker"
  shows "one_group (match_heading marker)"
  unfolding one_group_def
proof (intro allI impI)
  fix bol s caps n
  assume "match_heading marker bol s = Some (caps, n)"
  from heading_shape[OF this] obtain line rest where
    "s = marker @ line @ [] @ rest" "caps = [line]" "n = length (marker @ line @ [])"
    "rest = [] \<or> line_terminator (hd rest)" by auto
  moreover have "list_all delimiter []" by simp
  ultimately show "\<exists>d0 cap d1 rest. s = d0 @ cap @ d1 @ rest \<and> caps = [cap]
        \<and> n = length (d0 @ cap @ d1) \<and> d0 \<noteq> [] \<and> list_all delimiter d0 \<and> list_all delimiter d1
        \<and> (d1 \<noteq> [] \<or> rest = [] \<or> line_terminator (hd rest))"
    using assms by blast
qed

lemma one_group_delimited:
  assumes "d \<noteq> []" "list_all delimiter d"
  shows "one_group (match_delimited d)"
  unfolding one_group_def
proof (intro allI impI)
  fix bol s caps n
  assume "match_delimited d bol s = Some (caps, n)"
  from delimited_shape[OF this] obtain cap rest where
    "s = d @ cap @ d @ rest" "caps = [cap]" "n = length (d @ cap @ d)" by blast
  with assms show "\<exists>d0 cap d1 rest. s = d0 @ cap @ d1 @ rest \<and> caps = [cap]
        \<and> n = length (d0 @ cap @ d1) \<and> d0 \<noteq> [] \<and> list_all delimiter d0 \<and> list_all delimiter d1
        \<and> (d1 \<noteq> [] \<or> rest = [] \<or> line_terminator (hd rest))"
    by metis
qed

lemma one_group_code: "one_group match_code"
  unfolding one_group_def
proof (intro allI impI)
  fix bol s caps n
  assume "match_code bol s = Some (caps, n)"
  from code_shape[OF this] obtain cap rest where
    "s = [0x60] @ cap @ [0x60] @ rest" "caps = [cap]" "n = length ([0x60] @ cap @ [0x60])"
    by blast
  moreover have "list_all delimiter [0x60]" "[0x60 :: 16 word] \<noteq> []"
    by (simp_all add: delimiter_def)
  ultimately show "\<exists>d0 cap d1 rest. s = d0 @ cap @ d1 @ rest \<and> caps = [cap]
        \<and> n = length (d0 @ cap @ d1) \<and> d0 \<noteq> [] \<and> list_all delimiter d0 \<and> list_all delimiter d1
        \<and> (d1 \<noteq> [] \<or> rest = [] \<or> line_terminator (hd rest))"
    by metis
qed

lemma one_group_list: "one_group match_list"
  unfolding one_group_def
proof (intro allI impI)
  fix bol s caps n
  assume "match_list bol s = Some (caps, n)"
  from list_shape[OF this] obtain ws m item rest where
    s: "s = (ws @ [m, 0x20]) @ item @ [] @ rest" "caps = [item]"
      "n = length ((ws @ [m, 0x20]) @ item @ [])"
    and w: "list_all whitespace ws" and m: "m = 0x2D \<or> m = 0x2A \<or> m = 0x2B"
    and r: "rest = [] \<or> line_terminator (hd rest)" by auto
  from w m have "list_all delimiter (ws @ [m, 0x20])"
    by (auto simp: delimiter_def list_all_iff whitespace_def)
  moreover have "ws @ [m, 0x20] \<noteq> []" "list_all delimiter []" by simp_all
  ultimately show "\<exists>d0 cap d1 rest. s = d0 @ cap @ d1 @ rest \<and> caps = [cap]
        \<and> n = length (d0 @ cap @ d1) \<and> d0 \<noteq> [] \<and> list_all delimiter d0 \<and> list_all delimiter d1
        \<and> (d1 \<noteq> [] \<or> rest = [] \<or> line_terminator (hd rest))"
    using s r by blast
qed

lemma one_groupD:
  assumes "one_group m" "m bol s = Some (caps, n)"
  shows "\<exists>d0 cap d1 rest. s = d0 @ cap @ d1 @ rest \<and> caps = [cap]
        \<and> n = length (d0 @ cap @ d1) \<and> d0 \<noteq> [] \<and> list_all delimiter d0 \<and> list_all delimiter d1
        \<and> (d1 \<noteq> [] \<or> rest = [] \<or> line_terminator (hd rest))"
  using assms unfolding one_group_def by blast

subsection \<open>Every pass keeps the markup safe\<close>

lemma clean_one_group:
  assumes shape: "one_group m"
  shows "clean_matcher m"
  unfolding clean_matcher_def
proof (intro allI impI)
  fix bol s caps n
  assume a: "m bol s = Some (caps, n)"
  from one_groupD[OF shape a] obtain d0 cap d1 rest where s: "s = d0 @ cap @ d1 @ rest"
    and c: "caps = [cap]" and n: "n = length (d0 @ cap @ d1)" and d0: "d0 \<noteq> []"
    and l0: "list_all delimiter d0" and l1: "list_all delimiter d1"
    and e: "d1 \<noteq> [] \<or> rest = [] \<or> line_terminator (hd rest)" by blast
  have h: "\<not> tag_char (hd s)"
    using s d0 l0 by (cases d0) (auto simp: not_tag_char_delimiter)
  have "d1 @ rest = [] \<or> \<not> tag_char (hd (d1 @ rest))"
  proof (cases d1)
    case Nil
    with e show ?thesis by (auto simp: not_tag_char_line_terminator)
  next
    case (Cons x xs)
    with l1 show ?thesis by (simp add: not_tag_char_delimiter)
  qed
  with s have "\<exists>u v. s = u @ cap @ v \<and> (v = [] \<or> \<not> tag_char (hd v))" by blast
  with h n s d0 c show "0 < n \<and> n \<le> length s \<and> \<not> tag_char (hd s) \<and>
        (\<forall>cap \<in> set caps. \<exists>u v. s = u @ cap @ v \<and> (v = [] \<or> \<not> tag_char (hd v)))"
    by simp
qed

lemma clean_link: "clean_matcher match_link"
  unfolding clean_matcher_def
proof (intro allI impI)
  fix bol s caps n
  assume "match_link bol s = Some (caps, n)"
  from link_shape[OF this] obtain label href rest where
    s: "s = [0x5B] @ label @ [0x5D, 0x28] @ href @ [0x29] @ rest"
    and c: "caps = [label, href]"
    and n: "n = length ([0x5B] @ label @ [0x5D, 0x28] @ href @ [0x29])" by blast
  have "s = [0x5B] @ label @ ([0x5D, 0x28] @ href @ [0x29] @ rest)"
    "\<not> tag_char (hd ([0x5D, 0x28] @ href @ [0x29] @ rest))"
    using s by (simp_all add: tag_char_def)
  then have "\<exists>u v. s = u @ label @ v \<and> (v = [] \<or> \<not> tag_char (hd v))" by blast
  moreover have "s = ([0x5B] @ label @ [0x5D, 0x28]) @ href @ ([0x29] @ rest)"
    "\<not> tag_char (hd ([0x29] @ rest))"
    using s by (simp_all add: tag_char_def)
  then have "\<exists>u v. s = u @ href @ v \<and> (v = [] \<or> \<not> tag_char (hd v))" by blast
  moreover have "\<not> tag_char (hd s)" using s by (simp add: tag_char_def)
  moreover have "0 < n" "n \<le> length s" using n s by simp_all
  ultimately show "0 < n \<and> n \<le> length s \<and> \<not> tag_char (hd s) \<and>
        (\<forall>cap \<in> set caps. \<exists>u v. s = u @ cap @ v \<and> (v = [] \<or> \<not> tag_char (hd v)))"
    using c by simp
qed

lemma templates_safe:
  "tag_safe h4_template" "tag_safe h3_template" "tag_safe h2_template" "tag_safe h1_template"
  "tag_safe strong_template" "tag_safe em_template" "tag_safe code_template"
  "tag_safe li_template" "tag_safe a_template" "tag_safe p_open" "tag_safe p_close"
  by (simp_all add: h4_template_def h3_template_def h2_template_def h1_template_def
      strong_template_def em_template_def code_template_def li_template_def a_template_def
      p_open_def p_close_def)

lemma split_nonempty: "sep \<noteq> [] \<Longrightarrow> split sep s \<noteq> []"
  by (induction sep s rule: split.induct) (auto split: list.splits)

lemma join_Cons: "ps \<noteq> [] \<Longrightarrow> join sep (p # ps) = p @ sep @ join sep ps"
  by (cases ps) simp_all

lemma join_split: "sep \<noteq> [] \<Longrightarrow> join sep (split sep s) = s"
proof (induction sep s rule: split.induct)
  case (1 sep)
  then show ?case by simp
next
  case (2 sep c cs)
  show ?case
  proof (cases "prefix sep (c # cs)")
    case True
    then have "c # cs = sep @ drop (length sep) (c # cs)"
      by (auto simp: prefix_def)
    moreover from "2.IH"(1)[OF "2.prems" True "2.prems"]
    have "join sep (split sep (drop (length sep) (c # cs))) = drop (length sep) (c # cs)" .
    ultimately show ?thesis
      using True "2.prems" split_nonempty[OF "2.prems", of "drop (length sep) (c # cs)"]
      by (simp add: join_Cons)
  next
    case False
    from "2.IH"(2)[OF "2.prems" False "2.prems"] have ih: "join sep (split sep cs) = cs" .
    obtain l ls where sp: "split sep cs = l # ls"
      using split_nonempty[OF "2.prems", of cs] by (cases "split sep cs") auto
    have "join sep ((c # l) # ls) = c # join sep (l # ls)"
      by (cases ls) simp_all
    with ih sp False "2.prems" show ?thesis by simp
  qed
qed

lemma join_pieces_safe:
  "tag_safe (join sep ps) \<Longrightarrow> sep \<noteq> [] \<Longrightarrow> \<not> tag_char (hd sep) \<Longrightarrow> \<forall>p \<in> set ps. tag_safe p"
proof (induction sep ps rule: join.induct)
  case (3 sep x y ys)
  from "3.prems"(1) have a: "tag_safe (x @ sep @ join sep (y # ys))" by simp
  then have "tag_safe x"
    using tag_safe_prefix[of x "sep @ join sep (y # ys)"] "3.prems"(2,3) by simp
  moreover from a have "tag_safe (join sep (y # ys))"
    using tag_safe_suffix[of "x @ sep" "join sep (y # ys)"] by simp
  ultimately show ?case using "3.IH" "3.prems"(2,3) by simp
qed simp_all

lemma join_safe:
  "\<forall>p \<in> set ps. tag_safe p \<Longrightarrow> tag_safe sep \<Longrightarrow> tag_safe (join sep ps)"
  by (induction sep ps rule: join.induct) (simp_all add: tag_safe_append)

lemma wrap_paragraph_safe: "tag_safe p \<Longrightarrow> tag_safe (wrap_paragraph p)"
  by (simp add: wrap_paragraph_def tag_safe_append templates_safe)

lemma set_replace_char: "set (replace_char c r s) \<subseteq> (set s - {c}) \<union> set r"
  by (induction s) (auto simp: replace_char_def)

lemma escape_html_no_angle: "0x3C \<notin> set (escape_html s) \<and> 0x3E \<notin> set (escape_html s)"
proof -
  let ?a = "replace_char 0x26 (js ''&amp;'') s"
  let ?b = "replace_char 0x3C (js ''&lt;'') ?a"
  have b: "0x3C \<notin> set ?b"
    using set_replace_char[of "0x3C" "js ''&lt;''" ?a] by auto
  have "set (escape_html s) \<subseteq> (set ?b - {0x3E}) \<union> set (js ''&gt;'')"
    unfolding escape_html_def by (rule set_replace_char)
  with b show ?thesis by auto
qed

lemma replace_all_safe_start:
  "clean_matcher m \<Longrightarrow> tag_safe tmpl \<Longrightarrow> tag_safe s \<Longrightarrow> tag_safe (replace_all m tmpl bol s)"
  using replace_all_safe[of m tmpl "[]" s bol] by simp

lemma markdown_replaces_safe: "tag_safe s \<Longrightarrow> tag_safe (markdown_replaces s)"
  unfolding markdown_replaces_def
  by (intro replace_all_safe_start clean_one_group clean_link one_group_heading
      one_group_delimited one_group_code one_group_list templates_safe)
    (simp_all add: delimiter_def whitespace_def)

lemma renderMarkdown_safe: "tag_safe (renderMarkdown s)"
proof (cases "s = []")
  case True
  then show ?thesis by (simp add: renderMarkdown_def)
next
  case False
  let ?r = "markdown_replaces (escape_html s)"
  have "tag_safe (escape_html s)"
    using escape_html_no_angle by (intro tag_safe_no_lt) simp
  then have "tag_safe ?r" by (rule markdown_replaces_safe)
  then have "tag_safe (join [0x0A, 0x0A] (split [0x0A, 0x0A] ?r))"
    by (simp add: join_split)
  then have "\<forall>p \<in> set (split [0x0A, 0x0A] ?r). tag_safe p"
    by (rule join_pieces_safe) (simp_all add: tag_char_def)
  then have "\<forall>p \<in> set (map wrap_paragraph (split [0x0A, 0x0A] ?r)). tag_safe p"
    by (auto simp: wrap_paragraph_safe)
  then have "tag_safe (join [0x0A] (map wrap_paragraph (split [0x0A, 0x0A] ?r)))"
    by (rule join_safe) simp
  with False show ?thesis by (simp add: renderMarkdown_def)
qed

subsection \<open>Every pass keeps the escaped text\<close>

lemma sublist_trans: "sublist a b \<Longrightarrow> sublist b c \<Longrightarrow> sublist a c"
  using sublist_order.order_trans by blast

lemma sublist_Cons_avoid:
  assumes "sublist w (a @ c # b)" "c \<notin> set w"
  shows "sublist w a \<or> sublist w b"
proof -
  from assms(1) consider "sublist w a" | "sublist w (c # b)"
    | xs1 xs2 where "w = xs1 @ xs2" "suffix xs1 a" "prefix xs2 (c # b)"
    by (auto simp: sublist_append)
  then show ?thesis
  proof cases
    case 1
    then show ?thesis by simp
  next
    case 2
    then have "prefix w (c # b) \<or> sublist w b" by (simp add: sublist_Cons_right)
    with assms(2) show ?thesis by (cases w) auto
  next
    case 3
    with assms(2) have "xs2 = []" by (cases xs2) auto
    with 3 show ?thesis by auto
  qed
qed

lemma sublist_avoid:
  "sublist w (a @ d @ b) \<Longrightarrow> d \<noteq> [] \<Longrightarrow> set d \<inter> set w = {} \<Longrightarrow> sublist w a \<or> sublist w b"
proof (induction d arbitrary: a)
  case Nil
  then show ?case by simp
next
  case (Cons c d)
  from Cons.prems(1) have "sublist w (a @ c # (d @ b))" by simp
  with Cons.prems(3) have "sublist w a \<or> sublist w (d @ b)"
    using sublist_Cons_avoid[of w a c "d @ b"] by auto
  then show ?case
  proof
    assume "sublist w (d @ b)"
    show ?thesis
    proof (cases "d = []")
      case True
      with \<open>sublist w (d @ b)\<close> show ?thesis by simp
    next
      case False
      with Cons.IH[of "[]"] \<open>sublist w (d @ b)\<close> Cons.prems(3)
      have "sublist w [] \<or> sublist w b" by auto
      then show ?thesis by auto
    qed
  qed simp
qed

lemma sublist_rest_of_line:
  assumes "sublist w (a @ rest)" "rest = [] \<or> line_terminator (hd rest)" "plain w"
  shows "sublist w a \<or> sublist w rest"
proof (cases rest)
  case Nil
  with assms show ?thesis by simp
next
  case (Cons c r)
  with assms(2) have "delimiter c" by (simp add: delimiter_def)
  with assms(3) have "c \<notin> set w" by (auto simp: plain_def list_all_iff)
  with sublist_Cons_avoid[of w a c r] assms(1) Cons have "sublist w a \<or> sublist w r" by simp
  with Cons show ?thesis by (auto simp: sublist_Cons_right)
qed

lemma expand_group:
  "group_used i (length caps) tmpl \<Longrightarrow> sublist (caps ! i) (expand caps tmpl)"
proof (induction caps tmpl rule: expand.induct)
  case (1 caps c d t)
  show ?case
  proof (cases "c = 0x24 \<and> 0x31 \<le> d \<and> d \<le> 0x39 \<and> unat d - 0x31 < length caps")
    case True
    then have e: "expand caps (c # d # t) = caps ! (unat d - 0x31) @ expand caps t" by simp
    from True "1.prems" have "unat d - 0x31 = i \<or> group_used i (length caps) t" by simp
    then show ?thesis
    proof
      assume "unat d - 0x31 = i"
      with e show ?thesis by simp
    next
      assume "group_used i (length caps) t"
      from "1.IH"(1)[OF True this] have "sublist (caps ! i) (expand caps t)" .
      then have "sublist (caps ! i) (caps ! (unat d - 0x31) @ expand caps t)"
        by (simp add: sublist_append)
      with e show ?thesis by simp
    qed
  next
    case False
    then have e: "expand caps (c # d # t) = c # expand caps (d # t)" by auto
    from False "1.prems" have "group_used i (length caps) (d # t)" by auto
    from "1.IH"(2)[OF False this] have "sublist (caps ! i) (expand caps (d # t))" .
    with e show ?thesis by (simp add: sublist_Cons_right)
  qed
qed simp_all

lemma inertD:
  assumes "inert m tmpl w" "m bol s = Some (caps, n)"
  shows "0 < n" "n \<le> length s"
    "sublist w (x @ s) \<Longrightarrow> sublist w (x @ expand caps tmpl @ drop n s)"
  using assms unfolding inert_def by blast+

lemma replace_all_keeps:
  "inert m tmpl w \<Longrightarrow> sublist w (x @ s) \<Longrightarrow> sublist w (x @ replace_all m tmpl bol s)"
proof (induction m tmpl bol s arbitrary: x rule: replace_all.induct)
  case (1 m tmpl bol)
  have "m bol [] = None"
  proof (cases "m bol []")
    case (Some r)
    obtain caps n where "r = (caps, n)" by (cases r)
    with Some inertD(1,2)[OF "1.prems"(1), of bol "[]" caps n] show ?thesis
      by simp
  qed simp
  then show ?case using 1 by simp
next
  case (2 m tmpl bol c cs)
  show ?case
  proof (cases "m bol (c # cs)")
    case None
    from "2.prems"(2) have "sublist w ((x @ [c]) @ cs)" by simp
    from "2.IH"(1)[OF None "2.prems"(1) this] None show ?thesis by simp
  next
    case (Some r)
    obtain caps n where r: "r = (caps, n)" by (cases r)
    from Some r have mr: "m bol (c # cs) = Some (caps, n)" by simp
    note d = inertD[OF "2.prems"(1) mr]
    from d(3)[OF "2.prems"(2)]
    have "sublist w ((x @ expand caps tmpl) @ drop n (c # cs))" by simp
    from "2.IH"(3)[OF Some r[symmetric] _ "2.prems"(1) this] d(1)
    have "sublist w (x @ expand caps tmpl @ replace_all m tmpl
        (line_terminator ((c # cs) ! (min n (length (c # cs)) - 1))) (drop n (c # cs)))"
      by simp
    with Some r d(1) show ?thesis by simp
  qed
qed

lemma inert_one_group:
  assumes shape: "one_group m"
    and g: "group_used 0 1 tmpl" and w: "plain w"
  shows "inert m tmpl w"
  unfolding inert_def
proof (intro allI impI)
  fix bol s caps n x
  assume a: "m bol s = Some (caps, n)"
  from one_groupD[OF shape a] obtain d0 cap d1 rest where s: "s = d0 @ cap @ d1 @ rest"
    and c: "caps = [cap]" and n: "n = length (d0 @ cap @ d1)" and d0: "d0 \<noteq> []"
    and l0: "list_all delimiter d0" and l1: "list_all delimiter d1"
    and e: "d1 \<noteq> [] \<or> rest = [] \<or> line_terminator (hd rest)" by blast
  have dr: "drop n s = rest" using s n by simp
  have i0: "set d0 \<inter> set w = {}" and i1: "set d1 \<inter> set w = {}"
    using l0 l1 w by (auto simp: plain_def list_all_iff)
  from expand_group[of 0 caps tmpl] g c have ce: "sublist cap (expand caps tmpl)" by simp
  have keep: "sublist w (x @ expand caps tmpl @ rest)" if sw: "sublist w (x @ s)"
  proof -
    from sw s have "sublist w (x @ d0 @ (cap @ d1 @ rest))" by simp
    from sublist_avoid[OF this d0 i0] have "sublist w x \<or> sublist w (cap @ d1 @ rest)" .
    moreover have "sublist w cap \<or> sublist w rest" if h: "sublist w (cap @ d1 @ rest)"
    proof (cases "d1 = []")
      case False
      from sublist_avoid[OF h False i1] show ?thesis .
    next
      case True
      with e have "rest = [] \<or> line_terminator (hd rest)" by simp
      with sublist_rest_of_line[of w cap rest] h True w show ?thesis by simp
    qed
    ultimately consider "sublist w x" | "sublist w cap" | "sublist w rest" by blast
    then show ?thesis
    proof cases
      case 1
      then show ?thesis by (simp add: sublist_append)
    next
      case 2
      from 2 ce have "sublist w (expand caps tmpl)" by (rule sublist_trans)
      then show ?thesis by (simp add: sublist_append)
    next
      case 3
      then show ?thesis by (simp add: sublist_append)
    qed
  qed
  show "0 < n \<and> n \<le> length s \<and>
        (sublist w (x @ s) \<longrightarrow> sublist w (x @ expand caps tmpl @ drop n s))"
    using n s d0 dr keep by simp
qed

lemma inert_link:
  assumes g: "group_used 0 2 tmpl" "group_used 1 2 tmpl" and w: "plain w"
  shows "inert match_link tmpl w"
  unfolding inert_def
proof (intro allI impI)
  fix bol s caps n x
  assume "match_link bol s = Some (caps, n)"
  from link_shape[OF this] obtain label href rest where
    s: "s = [0x5B] @ label @ [0x5D, 0x28] @ href @ [0x29] @ rest"
    and c: "caps = [label, href]"
    and n: "n = length ([0x5B] @ label @ [0x5D, 0x28] @ href @ [0x29])" by blast
  have "s = ([0x5B] @ label @ [0x5D, 0x28] @ href @ [0x29]) @ rest" using s by simp
  with n have dr: "drop n s = rest" by (metis append_eq_conv_conj)
  have av: "set [0x5B] \<inter> set w = {}" "set [0x5D, 0x28] \<inter> set w = {}" "set [0x29] \<inter> set w = {}"
    using w by (auto simp: plain_def list_all_iff delimiter_def)
  have l: "length caps = 2" using c by simp
  have "sublist (caps ! 0) (expand caps tmpl)" "sublist (caps ! 1) (expand caps tmpl)"
    using expand_group[of 0 caps tmpl] expand_group[of 1 caps tmpl] g by (simp_all only: l)
  then have ce: "sublist label (expand caps tmpl)" "sublist href (expand caps tmpl)"
    using c by simp_all
  have keep: "sublist w (x @ expand caps tmpl @ rest)" if sw: "sublist w (x @ s)"
  proof -
    from sw s have "sublist w (x @ [0x5B] @ (label @ [0x5D, 0x28] @ href @ [0x29] @ rest))"
      by simp
    from sublist_avoid[OF this _ av(1)]
    have "sublist w x \<or> sublist w (label @ [0x5D, 0x28] @ (href @ [0x29] @ rest))" by simp
    moreover have "sublist w label \<or> sublist w (href @ [0x29] @ rest)"
      if "sublist w (label @ [0x5D, 0x28] @ (href @ [0x29] @ rest))"
      using sublist_avoid[OF that _ av(2)] by simp
    moreover have "sublist w href \<or> sublist w rest" if "sublist w (href @ [0x29] @ rest)"
      using sublist_avoid[OF that _ av(3)] by simp
    ultimately consider "sublist w x" | "sublist w label" | "sublist w href" | "sublist w rest"
      by blast
    then show ?thesis
    proof cases
      case 1
      then show ?thesis by (simp add: sublist_append)
    next
      case 2
      from 2 ce(1) have "sublist w (expand caps tmpl)" by (rule sublist_trans)
      then show ?thesis by (simp add: sublist_append)
    next
      case 3
      from 3 ce(2) have "sublist w (expand caps tmpl)" by (rule sublist_trans)
      then show ?thesis by (simp add: sublist_append)
    next
      case 4
      then show ?thesis by (simp add: sublist_append)
    qed
  qed
  show "0 < n \<and> n \<le> length s \<and>
        (sublist w (x @ s) \<longrightarrow> sublist w (x @ expand caps tmpl @ drop n s))"
    using n s dr keep by simp
qed

lemma templates_groups:
  "group_used 0 1 h4_template" "group_used 0 1 h3_template" "group_used 0 1 h2_template"
  "group_used 0 1 h1_template" "group_used 0 1 strong_template" "group_used 0 1 em_template"
  "group_used 0 1 code_template" "group_used 0 1 li_template"
  "group_used 0 2 a_template" "group_used 1 2 a_template"
  by (simp_all add: h4_template_def h3_template_def h2_template_def h1_template_def
      strong_template_def em_template_def code_template_def li_template_def a_template_def)

lemma replace_all_keeps_start:
  "inert m tmpl w \<Longrightarrow> sublist w s \<Longrightarrow> sublist w (replace_all m tmpl bol s)"
  using replace_all_keeps[of m tmpl w "[]" s bol] by simp

lemma markdown_replaces_keeps:
  "plain w \<Longrightarrow> sublist w s \<Longrightarrow> sublist w (markdown_replaces s)"
  unfolding markdown_replaces_def
  by (intro replace_all_keeps_start inert_one_group inert_link one_group_heading
      one_group_delimited one_group_code one_group_list templates_groups)
    (simp_all add: delimiter_def whitespace_def)

lemma sublist_join_piece:
  "sublist w (join sep ps) \<Longrightarrow> sep \<noteq> [] \<Longrightarrow> set sep \<inter> set w = {} \<Longrightarrow> w \<noteq> []
     \<Longrightarrow> \<exists>p \<in> set ps. sublist w p"
proof (induction sep ps rule: join.induct)
  case (3 sep x y ys)
  from "3.prems"(1) have "sublist w (x @ sep @ join sep (y # ys))" by simp
  from sublist_avoid[OF this "3.prems"(2,3)]
  have "sublist w x \<or> sublist w (join sep (y # ys))" .
  with "3.IH" "3.prems"(2-4) show ?case by auto
qed simp_all

lemma piece_sublist_join: "p \<in> set ps \<Longrightarrow> sublist p (join sep ps)"
proof (induction sep ps rule: join.induct)
  case (3 sep x y ys)
  show ?case
  proof (cases "p = x")
    case True
    then show ?thesis by simp
  next
    case False
    with "3.prems" "3.IH" have "sublist p (join sep (y # ys))" by simp
    then have "sublist p ((x @ sep) @ join sep (y # ys))"
      by (simp only: sublist_append) simp
    then show ?thesis by simp
  qed
qed simp_all

lemma wrap_paragraph_keeps: "sublist w p \<Longrightarrow> sublist w (wrap_paragraph p)"
  by (auto simp: wrap_paragraph_def sublist_append)

lemma paragraphs_keep:
  assumes "sublist w s" "plain w" "w \<noteq> []"
  shows "sublist w (join [0x0A] (map wrap_paragraph (split [0x0A, 0x0A] s)))"
proof -
  have "set [0x0A, 0x0A] \<inter> set w = {}"
    using assms(2) by (auto simp: plain_def list_all_iff delimiter_def line_terminator_def)
  moreover have "sublist w (join [0x0A, 0x0A] (split [0x0A, 0x0A] s))"
    using assms(1) by (simp add: join_split)
  ultimately obtain p where p: "p \<in> set (split [0x0A, 0x0A] s)" "sublist w p"
    using sublist_join_piece[of w "[0x0A, 0x0A]" "split [0x0A, 0x0A] s"] assms(3) by auto
  from p(2) have "sublist w (wrap_paragraph p)" by (rule wrap_paragraph_keeps)
  moreover from p(1) have "sublist (wrap_paragraph p)
      (join [0x0A] (map wrap_paragraph (split [0x0A, 0x0A] s)))"
    by (intro piece_sublist_join) simp
  ultimately show ?thesis by (rule sublist_trans)
qed

lemma replace_char_append:
  "replace_char c r (a @ b) = replace_char c r a @ replace_char c r b"
  by (simp add: replace_char_def)

lemma escape_html_append: "escape_html (a @ b) = escape_html a @ escape_html b"
  by (simp add: escape_html_def replace_char_append)

lemma escape_html_unit: "escape_html [c] = escaped_unit c"
  by (simp add: escape_html_def replace_char_def escaped_unit_def)

text \<open>
  The three passes together escape each code unit of the input on its own, once: the
  \<open>&\<close> of an entity written by the first pass is not escaped again, since \<open>&\<close> goes first.
\<close>

lemma escape_html_units: "escape_html s = concat (map escaped_unit s)"
proof (induction s)
  case Nil
  show ?case by (simp add: escape_html_def replace_char_def)
next
  case (Cons c s)
  have "escape_html (c # s) = escape_html ([c] @ s)" by simp
  also have "\<dots> = escaped_unit c @ escape_html s"
    by (simp only: escape_html_append escape_html_unit)
  finally show ?case using Cons.IH by simp
qed

lemma escape_html_script:
  "sublist (js ''<script>'') s \<Longrightarrow> sublist (js ''&lt;script&gt;'') (escape_html s)"
proof -
  assume "sublist (js ''<script>'') s"
  then obtain ps ss where "s = ps @ js ''<script>'' @ ss" by (auto simp: sublist_def)
  then have "escape_html s = escape_html ps @ escape_html (js ''<script>'') @ escape_html ss"
    by (simp only: escape_html_append)
  moreover have "escape_html (js ''<script>'') = js ''&lt;script&gt;''"
    by (simp add: escape_html_def replace_char_def)
  ultimately show ?thesis by (metis sublist_appendI)
qed

lemma renderMarkdown_keeps_escaped:
  assumes "sublist (js ''<script>'') s"
  shows "sublist (js ''&lt;script&gt;'') (renderMarkdown s)"
proof -
  have p: "plain (js ''&lt;script&gt;'')"
    by (simp add: plain_def delimiter_def whitespace_def line_terminator_def)
  from assms have "s \<noteq> []" by (auto simp: sublist_def)
  moreover from assms have "sublist (js ''&lt;script&gt;'') (markdown_replaces (escape_html s))"
    by (intro markdown_replaces_keeps p escape_html_script)
  then have "sublist (js ''&lt;script&gt;'')
      (join [0x0A] (map wrap_paragraph (split [0x0A, 0x0A] (markdown_replaces (escape_html s)))))"
    using p by (intro paragraphs_keep) simp_all
  ultimately show ?thesis by (simp add: renderMarkdown_def)
qed

subsection \<open>The renderer on two small inputs\<close>

lemma renderMarkdown_heading_example:
  "renderMarkdown (js ''## T'' @ [0x0A, 0x0A] @ js ''end'') =
     expand [js ''T''] h2_template @ [0x0A] @ p_open @ js ''end'' @ p_close"
  by (simp add: renderMarkdown_def escape_html_def replace_char_def markdown_replaces_def
      match_heading_def match_delimited_def match_code_def match_list_def match_link_def
      line_terminator_def whitespace_def wrap_paragraph_def Let_def
      h2_template_def)

lemma renderMarkdown_list_example:
  "renderMarkdown (js ''- *i* [t](u)'') =
     expand [expand [js ''i''] em_template @ js '' '' @ expand [js ''t'', js ''u''] a_template]
       li_template"
  by (simp add: renderMarkdown_def escape_html_def replace_char_def markdown_replaces_def
      match_heading_def match_delimited_def match_code_def match_list_def match_link_def
      line_terminator_def whitespace_def wrap_paragraph_def Let_def
      em_template_def li_template_def a_template_def)

subsection \<open>The claim about the renderer\<close>

text \<open>
  C6. For every input, \<open>renderMarkdown\<close> applies the Markdown replacements to the
  escaped input, and the escaped input is the input with every \<open>&\<close> replaced by
  \<open>&amp;\<close>, every \<open><\<close> by \<open>&lt;\<close> and every \<open>>\<close> by \<open>&gt;\<close>, unit by unit, so that no
  \<open><\<close> and no \<open>>\<close> is left in it; in the result every \<open><\<close> opens one of the renderer's
  own elements, so the result never contains the text \<open><script\<close>; and where the input
  contains \<open><script>\<close>, the result contains the escaped text \<open>&lt;script&gt;\<close>.
\<close>

theorem renderMarkdown_no_script:
  "renderMarkdown s =
     (if s = [] then []
      else join [0x0A] (map wrap_paragraph (split [0x0A, 0x0A]
             (markdown_replaces (escape_html s)))))
   \<and> escape_html s = concat (map escaped_unit s)
   \<and> 0x3C \<notin> set (escape_html s) \<and> 0x3E \<notin> set (escape_html s)
   \<and> tag_safe (renderMarkdown s)
   \<and> \<not> sublist (js ''<script'') (renderMarkdown s)
   \<and> (sublist (js ''<script>'') s \<longrightarrow> sublist (js ''&lt;script&gt;'') (renderMarkdown s))"
  using renderMarkdown_safe[of s] tag_safe_no_script[of "renderMarkdown s"]
    escape_html_no_angle[of s] renderMarkdown_keeps_escaped[of s] escape_html_units[of s]
  by (simp add: renderMarkdown_def)

theorem renderMarkdown_no_script_witness:
  \<open>sublist (js ''<script>'') (js ''**<script>alert(1)</script>**'')
   \<and> renderMarkdown (js ''**<script>alert(1)</script>**'') =
       js ''<strong style="font-weight: 600; color: #2d9ab7;">''
       @ js ''&lt;script&gt;alert(1)&lt;/script&gt;</strong>''
   \<and> sublist (js ''&lt;script&gt;'') (renderMarkdown (js ''**<script>alert(1)</script>**''))
   \<and> \<not> sublist (js ''<script'') (renderMarkdown (js ''**<script>alert(1)</script>**''))
   \<and> renderMarkdown (js ''<script>'') = p_open @ js ''&lt;script&gt;'' @ p_close
   \<and> escape_html (js ''a&b<c>&lt;'') = js ''a&amp;b&lt;c&gt;&amp;lt;''\<close>
proof -
  have i: "sublist (js ''<script>'') (js ''**<script>alert(1)</script>**'')"
    using sublist_appendI[of "js ''<script>''" "js ''**''" "js ''alert(1)</script>**''"]
    by simp
  have r: \<open>renderMarkdown (js ''**<script>alert(1)</script>**'') =
       js ''<strong style="font-weight: 600; color: #2d9ab7;">''
       @ js ''&lt;script&gt;alert(1)&lt;/script&gt;</strong>''\<close>
    by (simp add: renderMarkdown_def escape_html_def replace_char_def markdown_replaces_def
        match_heading_def match_delimited_def match_code_def match_list_def match_link_def
        line_terminator_def whitespace_def wrap_paragraph_def Let_def strong_template_def)
  have p: "renderMarkdown (js ''<script>'') = p_open @ js ''&lt;script&gt;'' @ p_close"
    by (simp add: renderMarkdown_def escape_html_def replace_char_def markdown_replaces_def
        match_heading_def match_delimited_def match_code_def match_list_def match_link_def
        line_terminator_def whitespace_def wrap_paragraph_def Let_def)
  have "escape_html (js ''a&b<c>&lt;'') = concat (map escaped_unit (js ''a&b<c>&lt;''))"
    using renderMarkdown_no_script [of "js ''a&b<c>&lt;''"] by blast
  then have e: "escape_html (js ''a&b<c>&lt;'') = js ''a&amp;b&lt;c&gt;&amp;lt;''"
    by (simp add: escaped_unit_def)
  from renderMarkdown_no_script [of "js ''**<script>alert(1)</script>**''"] i r p e
  show ?thesis by blast
qed

end
